theory Spec2Isabelle
  imports Complex_Main "HOL-Library.Word"
begin

unbundle bit_operations_syntax

section \<open>Common types\<close>

text \<open>
  Typed arrays (\<open>Uint8Array\<close>, \<open>Uint8ClampedArray\<close>) are lists of 8-bit words.
  JavaScript numbers that only ever hold small non-negative integers (indices, lengths,
  bit accumulators) are \<open>nat\<close>. Where the source computes with numbers that can leave
  the exactly representable integers (the capacity of an image, the progress of a read), the
  model computes on exact rationals and rounds every result as the engine does, see
  \<open>fround\<close> below.

  The source throws plain \<open>Error\<close> objects that differ in their message only. The
  constructors below name the failure classes of the specification; each throw site of the
  source is mapped to one of them where it is modelled.
\<close>

type_synonym byte = "8 word"

datatype error =
    CapacityError      \<comment> \<open>'File is too large for this cover image.'\<close>
  | CorruptionError    \<comment> \<open>'No valid hidden data found or file corrupted.'\<close>
  | FormatError        \<comment> \<open>every throw of \<open>Decryptor.parseEncryptedFile\<close>\<close>
  | MissingPasswordError   \<comment> \<open>'Password required for this file'\<close>
  | MalformedMetadataError \<comment> \<open>'Invalid file format: missing key data'\<close>
  | KeyDerivationError \<comment> \<open>named by the specification; no throw site in the source\<close>

section \<open>Numbers\<close>

text \<open>A JavaScript number is an IEEE 754 binary64 value: a significand of 53 bits and a
  binary exponent. \<open>fround x\<close> is the binary64 value nearest to the exact rational \<open>x\<close>,
  a tie going to the even significand (the only rounding mode of ECMAScript). The unit in
  the last place is \<open>2 ^ (e - 52)\<close> for \<open>2 ^ e \<le> \<bar>x\<bar> < 2 ^ (e + 1)\<close>, and \<open>2 ^ - 1074\<close> in
  the subnormal range. Overflow to infinity (from \<open>2 ^ 1024\<close> on) is not part of \<open>fround\<close>;
  the arithmetic of the source stays far below it, and \<open>JSON.parse\<close>, which can meet
  such a literal, tests for it.\<close>

text \<open>The number of binary digits of \<open>n\<close>.\<close>

fun bitLength :: "nat \<Rightarrow> nat" where
  "bitLength n = (if n = 0 then 0 else Suc (bitLength (n div 2)))"

declare bitLength.simps [simp del]

definition pow2 :: "int \<Rightarrow> rat" where
  "pow2 e = (if 0 \<le> e then 2 ^ nat e else 1 / 2 ^ nat (- e))"

text \<open>The exponent \<open>e\<close> with \<open>2 ^ e \<le> a < 2 ^ (e + 1)\<close>, for \<open>a > 0\<close>: one less than the
  number of digits of the integer part when \<open>a \<ge> 1\<close>, and otherwise minus the least \<open>j\<close>
  with \<open>1 / a \<le> 2 ^ j\<close>.\<close>

definition binaryExponent :: "rat \<Rightarrow> int" where
  "binaryExponent a =
     (if 1 \<le> a then int (bitLength (nat \<lfloor>a\<rfloor>)) - 1
      else - int (bitLength (nat (\<lceil>1 / a\<rceil> - 1))))"

definition roundHalfEven :: "rat \<Rightarrow> int" where
  "roundHalfEven x =
     (let m = \<lfloor>x\<rfloor>; r = x - of_int m
      in if r < 1 / 2 then m else if 1 / 2 < r then m + 1 else if even m then m else m + 1)"

definition fround :: "rat \<Rightarrow> rat" where
  "fround x =
     (if x = 0 then 0
      else
        (let e = max (binaryExponent \<bar>x\<bar> - 52) (- 1074);
             ulp = pow2 e
         in of_int (roundHalfEven (x / ulp)) * ulp))"

text \<open>The operators \<open>*\<close>, \<open>-\<close> and \<open>/\<close> on numbers: the exact result, rounded.\<close>

definition fmul :: "rat \<Rightarrow> rat \<Rightarrow> rat" where
  "fmul x y = fround (x * y)"

definition fsub :: "rat \<Rightarrow> rat \<Rightarrow> rat" where
  "fsub x y = fround (x - y)"

definition fdiv :: "rat \<Rightarrow> rat \<Rightarrow> rat" where
  "fdiv x y = fround (x / y)"

section \<open>src/file-handling/chunked-reader.js\<close>

definition CHUNK_SIZE :: nat where
  "CHUNK_SIZE = 10 * 1024 * 1024"

text \<open>A \<open>File\<close> is its byte content; \<open>file.size\<close> is the length and
  \<open>file.slice(a, b)\<close> (for \<open>a \<le> b \<le> size\<close>, the only way the reader calls it) is
  the sub-list from \<open>a\<close> up to \<open>b\<close>.\<close>

definition slice :: "'a list \<Rightarrow> nat \<Rightarrow> nat \<Rightarrow> 'a list" where
  "slice xs a b = take (b - a) (drop a xs)"

text \<open>\<open>Math.ceil(file.size / CHUNK_SIZE)\<close>, on exact arithmetic.\<close>

definition totalChunks :: "byte list \<Rightarrow> nat" where
  "totalChunks file = (length file + CHUNK_SIZE - 1) div CHUNK_SIZE"

record chunk =
  chunk_data :: "byte list"
  chunk_index :: nat
  chunk_progress :: int

text \<open>\<open>Math.round((offset / this.file.size) * 100)\<close>: the quotient and the product are
  rounded to numbers; \<open>Math.round\<close> gives the nearest integer, the upper one at a tie.\<close>

definition progressPercent :: "nat \<Rightarrow> nat \<Rightarrow> int" where
  "progressPercent offset fileSize =
     \<lfloor>fmul (fdiv (of_nat offset) (of_nat fileSize)) 100 + 1 / 2\<rfloor>"

text \<open>The generator \<open>readChunks\<close>: the list of everything it yields, in order. The
  arguments \<open>offset\<close> and \<open>chunkIndex\<close> are the loop variables.\<close>

function readChunks_from :: "byte list \<Rightarrow> nat \<Rightarrow> nat \<Rightarrow> chunk list" where
  "readChunks_from file offset chunkIndex =
     (if offset < length file then
        (let end = min (offset + CHUNK_SIZE) (length file);
             arrayBuffer = slice file offset end;
             progress = progressPercent offset (length file)
         in \<lparr>chunk_data = arrayBuffer, chunk_index = chunkIndex, chunk_progress = progress\<rparr>
            # readChunks_from file end (chunkIndex + 1))
      else [])"
  by pat_completeness auto
termination
  by (relation "measure (\<lambda>(file, offset, chunkIndex). length file - offset)")
     (auto simp: CHUNK_SIZE_def)

declare readChunks_from.simps [simp del]

definition readChunks :: "byte list \<Rightarrow> chunk list" where
  "readChunks file = readChunks_from file 0 0"

section \<open>src/steganography/lsb-encoder.js\<close>

text \<open>A loaded image: its dimensions and the RGBA samples that \<open>drawImage\<close> followed by
  \<open>getImageData(0, 0, width, height)\<close> yields (four samples per pixel, raster order).\<close>

record image =
  width :: nat
  height :: nat
  pixelData :: "byte list"

definition wellFormed :: "image \<Rightarrow> bool" where
  "wellFormed img = (length (pixelData img) = 4 * (width img * height img))"

text \<open>\<open>Math.floor(((totalPixels * 3) - 32) / 8)\<close> with
  \<open>totalPixels = image.width * image.height\<close>; every operator rounds its result. The
  result is an integer, negative for images of fewer than 11 pixels.\<close>

definition getMaxCapacity :: "image \<Rightarrow> int" where
  "getMaxCapacity img =
     (let totalPixels = fmul (of_nat (width img)) (of_nat (height img))
      in \<lfloor>fdiv (fsub (fmul totalPixels 3) 32) 8\<rfloor>)"

definition hasCapacity :: "image \<Rightarrow> nat \<Rightarrow> bool" where
  "hasCapacity img dataSizeInBytes =
     (let totalPixels = fmul (of_nat (width img)) (of_nat (height img));
          maxBytes = \<lfloor>fdiv (fsub (fmul totalPixels 3) 32) 8\<rfloor>
      in int dataSizeInBytes \<le> maxBytes)"

text \<open>\<open>DataView.setUint32(0, n)\<close> (big-endian) into a fresh 4-byte array, and
  \<open>DataView.getUint32(0)\<close> back. \<open>setUint32\<close> reduces its argument modulo \<open>2^32\<close>.\<close>

definition setUint32_be :: "nat \<Rightarrow> byte list" where
  "setUint32_be n =
     (let v = n mod 2 ^ 32
      in [of_nat (v div 2 ^ 24), of_nat (v div 2 ^ 16), of_nat (v div 2 ^ 8), of_nat v])"

definition getUint32_be :: "byte list \<Rightarrow> nat" where
  "getUint32_be bs =
     unat (bs ! 0) * 2 ^ 24 + unat (bs ! 1) * 2 ^ 16 + unat (bs ! 2) * 2 ^ 8 + unat (bs ! 3)"

subsection \<open>hide\<close>

text \<open>The body of the inner loop of \<open>hide\<close> after its \<open>break\<close> test: one bit of
  \<open>fullData\<close> goes into the sample at index \<open>k = i + j\<close>. The state is
  \<open>(pixels, dataIndex, bitIndex)\<close>. A write beyond the end of a typed array is ignored,
  as \<open>list_update\<close> does.\<close>

definition hide_step :: "byte list \<Rightarrow> nat \<Rightarrow> byte list \<times> nat \<times> nat \<Rightarrow> byte list \<times> nat \<times> nat" where
  "hide_step fullData k st =
     (case st of (pixels, dataIndex, bitIndex) \<Rightarrow>
        (let byte = fullData ! dataIndex;
             bit = drop_bit (7 - bitIndex) byte AND 1;
             pixels' = pixels[k := (pixels ! k AND NOT 1) OR bit];
             bitIndex' = bitIndex + 1
         in if bitIndex' = 8 then (pixels', dataIndex + 1, 0)
            else (pixels', dataIndex, bitIndex')))"

text \<open>The inner loop \<open>for (j = 0; j < 3; j++)\<close> over the channels still to visit; the
  first branch is the \<open>break\<close>.\<close>

fun hide_channels :: "byte list \<Rightarrow> nat \<Rightarrow> nat list \<Rightarrow> byte list \<times> nat \<times> nat \<Rightarrow> byte list \<times> nat \<times> nat" where
  "hide_channels fullData i [] st = st"
| "hide_channels fullData i (j # js) (pixels, dataIndex, bitIndex) =
     (if dataIndex \<ge> length fullData then (pixels, dataIndex, bitIndex)
      else hide_channels fullData i js (hide_step fullData (i + j) (pixels, dataIndex, bitIndex)))"

lemma length_hide_step [simp]:
  "length (fst (hide_step fullData k (pixels, d, b))) = length pixels"
  by (simp add: hide_step_def Let_def)

lemma length_hide_channels [simp]:
  "length (fst (hide_channels fullData i js st)) = length (fst st)"
proof (induction js arbitrary: st)
  case Nil
  show ?case by simp
next
  case (Cons j js)
  obtain p d b where st: "st = (p, d, b)" by (cases st)
  show ?case
  proof (cases "d \<ge> length fullData")
    case True
    then show ?thesis by (simp add: st)
  next
    case False
    then have "length (fst (hide_channels fullData i (j # js) st))
        = length (fst (hide_step fullData (i + j) (p, d, b)))"
      by (simp add: st Cons.IH)
    then show ?thesis by (simp add: st)
  qed
qed

text \<open>The outer loop \<open>for (i = 0; i < pixels.length; i += 4)\<close>.\<close>

function hide_loop :: "byte list \<Rightarrow> nat \<Rightarrow> byte list \<times> nat \<times> nat \<Rightarrow> byte list \<times> nat \<times> nat" where
  "hide_loop fullData i (pixels, dataIndex, bitIndex) =
     (if i < length pixels then
        (if dataIndex \<ge> length fullData then (pixels, dataIndex, bitIndex)
         else hide_loop fullData (i + 4)
                (hide_channels fullData i [0, 1, 2] (pixels, dataIndex, bitIndex)))
      else (pixels, dataIndex, bitIndex))"
  by pat_completeness auto
termination
  by (relation "measure (\<lambda>(fullData, i, st). length (fst st) - i)")
     (simp_all del: hide_channels.simps)

declare hide_loop.simps [simp del]

text \<open>The objects a call of \<open>hide\<close> works on: the loaded cover image, which the call only
  reads (\<open>drawImage\<close>), and the pixel buffer of the canvas that the call creates, \<open>None\<close>
  as long as no canvas exists. \<open>hide_from\<close> is the body of \<open>hide\<close> after \<open>loadImage\<close>; it
  returns the outcome together with the objects as the call leaves them. The capacity test
  comes first and throws before the canvas and its pixel buffer exist. Otherwise the pixel
  buffer is read from the image, written by the loop and handed to \<open>putImageData\<close> (and from
  there, losslessly, to the PNG encoder).\<close>

record hideObjects =
  loadedImage :: image
  canvasPixels :: "byte list option"

definition hide_from :: "byte list \<Rightarrow> hideObjects \<Rightarrow> (error + byte list) \<times> hideObjects" where
  "hide_from secretData objs =
     (let img = loadedImage objs
      in if \<not> hasCapacity img (length secretData) then (Inl CapacityError, objs)
         else
           (let pixels = pixelData img;
                lengthHeader = setUint32_be (length secretData);
                fullData = lengthHeader @ secretData;
                pixels' = fst (hide_loop fullData 0 (pixels, 0, 0))
            in (Inr pixels', objs\<lparr>canvasPixels := Some pixels'\<rparr>)))"

text \<open>\<open>hide\<close>: the outcome of the call on a freshly loaded image.\<close>

definition hide :: "image \<Rightarrow> byte list \<Rightarrow> error + byte list" where
  "hide img secretData = fst (hide_from secretData \<lparr>loadedImage = img, canvasPixels = None\<rparr>)"


subsection \<open>reveal\<close>

text \<open>\<open>pixels[k] & 1\<close> as a number. Reading beyond the end of a typed array gives
  \<open>undefined\<close>, and \<open>undefined & 1\<close> is \<open>0\<close>.\<close>

definition sampleBit :: "byte list \<Rightarrow> nat \<Rightarrow> nat" where
  "sampleBit pixels k = (if k < length pixels then unat (pixels ! k AND 1) else 0)"

text \<open>First pass: the 32 header bits. The state is
  \<open>(headerBytes, byteIndex, bitIndex, currentByte)\<close>; \<open>header_step\<close> is the body of the
  inner loop after its \<open>break\<close> test. \<open>currentByte\<close> is a number, reduced modulo 256
  when it is stored into the \<open>Uint8Array\<close>.\<close>

definition header_step :: "byte list \<Rightarrow> nat \<Rightarrow> byte list \<times> nat \<times> nat \<times> nat \<Rightarrow> byte list \<times> nat \<times> nat \<times> nat" where
  "header_step pixels k st =
     (case st of (headerBytes, byteIndex, bitIndex, currentByte) \<Rightarrow>
        (let bit = sampleBit pixels k;
             currentByte' = push_bit 1 currentByte OR bit;
             bitIndex' = bitIndex + 1
         in if bitIndex' = 8
            then (headerBytes[byteIndex := of_nat currentByte'], byteIndex + 1, 0, 0)
            else (headerBytes, byteIndex, bitIndex', currentByte')))"

fun header_channels :: "byte list \<Rightarrow> nat \<Rightarrow> nat list \<Rightarrow> byte list \<times> nat \<times> nat \<times> nat \<Rightarrow> byte list \<times> nat \<times> nat \<times> nat" where
  "header_channels pixels pixelIndex [] st = st"
| "header_channels pixels pixelIndex (j # js) (headerBytes, byteIndex, bitIndex, currentByte) =
     (if byteIndex \<ge> 4 then (headerBytes, byteIndex, bitIndex, currentByte)
      else header_channels pixels pixelIndex js
             (header_step pixels (pixelIndex + j) (headerBytes, byteIndex, bitIndex, currentByte)))"

text \<open>\<open>while (byteIndex < 4 && pixelIndex < pixels.length)\<close>.\<close>

function header_loop :: "byte list \<Rightarrow> nat \<Rightarrow> byte list \<times> nat \<times> nat \<times> nat \<Rightarrow> byte list \<times> nat \<times> nat \<times> nat" where
  "header_loop pixels pixelIndex (headerBytes, byteIndex, bitIndex, currentByte) =
     (if byteIndex < 4 \<and> pixelIndex < length pixels then
        header_loop pixels (pixelIndex + 4)
          (header_channels pixels pixelIndex [0, 1, 2] (headerBytes, byteIndex, bitIndex, currentByte))
      else (headerBytes, byteIndex, bitIndex, currentByte))"
  by pat_completeness auto
termination
  by (relation "measure (\<lambda>(pixels, pixelIndex, st). length pixels - pixelIndex)") auto

declare header_loop.simps [simp del]

text \<open>Second pass, the single-pass state machine that produces the result. The state is
  \<open>(outputBuffer, outputIndex, bitIndex, currentByte, readingHeader, headerBitsRead)\<close>.
  The source also accumulates \<open>headerBuffer\<close>, which it only compares with
  \<open>dataLength\<close> in an empty \<open>if\<close>; that variable has no effect and is left out.
  \<open>data_step\<close> is the body of the \<open>else\<close> branch after its \<open>break\<close> test.\<close>

definition data_step :: "nat \<Rightarrow> byte list \<times> nat \<times> nat \<times> nat \<times> bool \<times> nat \<Rightarrow> byte list \<times> nat \<times> nat \<times> nat \<times> bool \<times> nat" where
  "data_step b st =
     (case st of (outputBuffer, outputIndex, bitIndex, currentByte, readingHeader, headerBitsRead) \<Rightarrow>
        (let currentByte' = push_bit 1 currentByte OR b;
             bitIndex' = bitIndex + 1
         in if bitIndex' = 8
            then (outputBuffer[outputIndex := of_nat currentByte'], outputIndex + 1, 0, 0,
                  readingHeader, headerBitsRead)
            else (outputBuffer, outputIndex, bitIndex', currentByte',
                  readingHeader, headerBitsRead)))"

fun reveal_channels :: "byte list \<Rightarrow> nat \<Rightarrow> nat \<Rightarrow> nat list \<Rightarrow> byte list \<times> nat \<times> nat \<times> nat \<times> bool \<times> nat \<Rightarrow> byte list \<times> nat \<times> nat \<times> nat \<times> bool \<times> nat" where
  "reveal_channels pixels dataLength i [] st = st"
| "reveal_channels pixels dataLength i (j # js)
       (outputBuffer, outputIndex, bitIndex, currentByte, readingHeader, headerBitsRead) =
     (let bit = sampleBit pixels (i + j) in
      if readingHeader then
        (let headerBitsRead' = headerBitsRead + 1
         in reveal_channels pixels dataLength i js
              (outputBuffer, outputIndex, bitIndex, currentByte,
               headerBitsRead' \<noteq> 32, headerBitsRead'))
      else if outputIndex \<ge> dataLength then
        (outputBuffer, outputIndex, bitIndex, currentByte, readingHeader, headerBitsRead)
      else reveal_channels pixels dataLength i js
             (data_step bit (outputBuffer, outputIndex, bitIndex, currentByte,
                             readingHeader, headerBitsRead)))"

text \<open>\<open>for (i = 0; i < pixels.length; i += 4)\<close> with the \<open>break\<close> after the inner loop.\<close>

function reveal_loop :: "byte list \<Rightarrow> nat \<Rightarrow> nat \<Rightarrow> byte list \<times> nat \<times> nat \<times> nat \<times> bool \<times> nat \<Rightarrow> byte list \<times> nat \<times> nat \<times> nat \<times> bool \<times> nat" where
  "reveal_loop pixels dataLength i st =
     (if i < length pixels then
        (case reveal_channels pixels dataLength i [0, 1, 2] st of
           (outputBuffer, outputIndex, bitIndex, currentByte, readingHeader, headerBitsRead) \<Rightarrow>
             if \<not> readingHeader \<and> outputIndex \<ge> dataLength
             then (outputBuffer, outputIndex, bitIndex, currentByte, readingHeader, headerBitsRead)
             else reveal_loop pixels dataLength (i + 4)
                    (outputBuffer, outputIndex, bitIndex, currentByte, readingHeader, headerBitsRead))
      else st)"
  by pat_completeness auto
termination
  by (relation "measure (\<lambda>(pixels, dataLength, i, st). length pixels - i)") auto

declare reveal_loop.simps [simp del]

text \<open>\<open>reveal\<close> on the decoded pixel buffer of the stego image. The sanity check compares
  \<open>dataLength\<close> with the real number \<open>pixels.length * 3 / 8\<close>; multiplied out, that is
  \<open>dataLength * 8 > pixels.length * 3\<close>. \<open>pixels.length\<close> counts all four samples of
  every pixel.\<close>

definition reveal :: "byte list \<Rightarrow> error + byte list" where
  "reveal pixels =
     (let headerBytes = fst (header_loop pixels 0 (replicate 4 0, 0, 0, 0));
          dataLength = getUint32_be headerBytes
      in if dataLength \<le> 0 \<or> dataLength * 8 > length pixels * 3 then Inl CorruptionError
         else Inr (fst (reveal_loop pixels dataLength 0
                          (replicate dataLength 0, 0, 0, 0, True, 0))))"

section \<open>Platform text functions\<close>

text \<open>A JavaScript string is a sequence of UTF-16 code units. \<open>jsLit\<close> writes an ASCII
  literal as such a string.\<close>

type_synonym codeunit = "16 word"
type_synonym jsstring = "codeunit list"

definition jsLit :: "string \<Rightarrow> jsstring" where
  "jsLit s = map (\<lambda>c. of_nat (of_char c)) s"

definition isHighSurrogate :: "nat \<Rightarrow> bool" where
  "isHighSurrogate u = (0xD800 \<le> u \<and> u \<le> 0xDBFF)"

definition isLowSurrogate :: "nat \<Rightarrow> bool" where
  "isLowSurrogate u = (0xDC00 \<le> u \<and> u \<le> 0xDFFF)"

definition isSurrogate :: "nat \<Rightarrow> bool" where
  "isSurrogate u = (0xD800 \<le> u \<and> u \<le> 0xDFFF)"

text \<open>\<open>StringToCodePoints\<close> of ECMAScript: a high surrogate followed by a low surrogate is
  one supplementary code point; any other code unit, a lone surrogate included, is a code
  point of its own.\<close>

fun codepoints :: "jsstring \<Rightarrow> nat list" where
  "codepoints [] = []"
| "codepoints [u] = [unat u]"
| "codepoints (u # v # us) =
     (if isHighSurrogate (unat u) \<and> isLowSurrogate (unat v)
      then (0x10000 + (unat u - 0xD800) * 0x400 + (unat v - 0xDC00)) # codepoints us
      else unat u # codepoints (v # us))"

definition utf16_of_codepoint :: "nat \<Rightarrow> jsstring" where
  "utf16_of_codepoint c =
     (if c < 0x10000 then [of_nat c]
      else [of_nat (0xD800 + (c - 0x10000) div 0x400), of_nat (0xDC00 + (c - 0x10000) mod 0x400)])"

definition utf8_of_codepoint :: "nat \<Rightarrow> byte list" where
  "utf8_of_codepoint c =
     (if c < 0x80 then [of_nat c]
      else if c < 0x800 then [of_nat (0xC0 + c div 0x40), of_nat (0x80 + c mod 0x40)]
      else if c < 0x10000 then
        [of_nat (0xE0 + c div 0x1000), of_nat (0x80 + c div 0x40 mod 0x40), of_nat (0x80 + c mod 0x40)]
      else
        [of_nat (0xF0 + c div 0x40000), of_nat (0x80 + c div 0x1000 mod 0x40),
         of_nat (0x80 + c div 0x40 mod 0x40), of_nat (0x80 + c mod 0x40)])"

text \<open>\<open>new TextEncoder().encode(s)\<close>: the string is converted to scalar values (a lone
  surrogate becomes U+FFFD) and each is written in UTF-8.\<close>

definition TextEncoder_encode :: "jsstring \<Rightarrow> byte list" where
  "TextEncoder_encode s =
     concat (map (\<lambda>c. utf8_of_codepoint (if isSurrogate c then 0xFFFD else c)) (codepoints s))"

text \<open>\<open>new TextDecoder().decode(bytes)\<close>: the UTF-8 decoder of the Encoding standard, with
  replacement of malformed sequences by U+FFFD. The state is the code point under
  construction, the number of continuation bytes still needed, and the bounds for the next
  continuation byte. \<open>utf8_lead\<close> is the decoder's reaction to a byte when no sequence is
  open: a finished code point, the start of a sequence, or an error.\<close>

datatype utf8_lead = Emit nat | Start nat nat nat nat | Malformed

definition utf8_lead :: "nat \<Rightarrow> utf8_lead" where
  "utf8_lead b =
     (if b \<le> 0x7F then Emit b
      else if 0xC2 \<le> b \<and> b \<le> 0xDF then Start (b mod 0x20) 1 0x80 0xBF
      else if 0xE0 \<le> b \<and> b \<le> 0xEF then
        Start (b mod 0x10) 2 (if b = 0xE0 then 0xA0 else 0x80) (if b = 0xED then 0x9F else 0xBF)
      else if 0xF0 \<le> b \<and> b \<le> 0xF4 then
        Start (b mod 0x08) 3 (if b = 0xF0 then 0x90 else 0x80) (if b = 0xF4 then 0x8F else 0xBF)
      else Malformed)"

fun utf8_decode :: "nat \<Rightarrow> nat \<Rightarrow> nat \<Rightarrow> nat \<Rightarrow> byte list \<Rightarrow> nat list" where
  "utf8_decode cp needed lower upper [] = (if needed \<noteq> 0 then [0xFFFD] else [])"
| "utf8_decode cp needed lower upper (b # bs) =
     (if needed = 0 \<or> unat b < lower \<or> upper < unat b then
        (if needed = 0 then [] else [0xFFFD]) @
        (case utf8_lead (unat b) of
           Emit c \<Rightarrow> c # utf8_decode 0 0 0x80 0xBF bs
         | Start c n lo up \<Rightarrow> utf8_decode c n lo up bs
         | Malformed \<Rightarrow> 0xFFFD # utf8_decode 0 0 0x80 0xBF bs)
      else
        (let cp' = cp * 0x40 + unat b mod 0x40
         in if needed = 1 then cp' # utf8_decode 0 0 0x80 0xBF bs
            else utf8_decode cp' (needed - 1) 0x80 0xBF bs))"

definition TextDecoder_decode :: "byte list \<Rightarrow> jsstring" where
  "TextDecoder_decode bytes =
     (let bytes' = (if take 3 bytes = [0xEF, 0xBB, 0xBF] then drop 3 bytes else bytes)
      in concat (map utf16_of_codepoint (utf8_decode 0 0 0x80 0xBF bytes')))"

section \<open>Platform JSON functions\<close>

text \<open>The number values \<open>JSON.parse\<close> can produce: the finite binary64 values, with the
  negative zero apart from zero, and the two infinities.\<close>

datatype number = Finite rat | NegativeZero | PositiveInfinity | NegativeInfinity

text \<open>The values \<open>JSON.parse\<close> produces. An object is the list of its own properties in
  the order in which the engine enumerates them: the keys that are array indices in ascending
  order, then the other keys in the order of their creation.\<close>

datatype json =
    JNull
  | JBool bool
  | JNumber number
  | JString jsstring
  | JArray "json list"
  | JObject "(jsstring \<times> json) list"

subsection \<open>JSON.stringify\<close>

definition hexDigit :: "nat \<Rightarrow> codeunit" where
  "hexDigit n = (if n < 10 then of_nat (0x30 + n) else of_nat (0x57 + n))"

text \<open>\<open>QuoteJSONString\<close>, one code point at a time: the two-character escapes
  (backslash \<open>0x5C\<close> followed by \<open>b t n f r\<close>, the quote \<open>0x22\<close> or a backslash), the
  \<open>\u\<close> escape with four lower-case hexadecimal digits for the other control characters
  and for lone surrogates, and the code point itself otherwise.\<close>

definition quoteCodePoint :: "nat \<Rightarrow> jsstring" where
  "quoteCodePoint c =
     (if c = 0x08 then [0x5C, 0x62]
      else if c = 0x09 then [0x5C, 0x74]
      else if c = 0x0A then [0x5C, 0x6E]
      else if c = 0x0C then [0x5C, 0x66]
      else if c = 0x0D then [0x5C, 0x72]
      else if c = 0x22 then [0x5C, 0x22]
      else if c = 0x5C then [0x5C, 0x5C]
      else if c < 0x20 \<or> isSurrogate c then
        [0x5C, 0x75] @ [hexDigit (c div 0x1000), hexDigit (c div 0x100 mod 0x10),
                      hexDigit (c div 0x10 mod 0x10), hexDigit (c mod 0x10)]
      else utf16_of_codepoint c)"

definition quoteJSONString :: "jsstring \<Rightarrow> jsstring" where
  "quoteJSONString s = [0x22] @ concat (map quoteCodePoint (codepoints s)) @ [0x22]"

text \<open>\<open>Number::toString\<close> for an integer of magnitude below \<open>10^21\<close>: its decimal
  digits.\<close>

function digits :: "nat \<Rightarrow> jsstring" where
  "digits n = (if n < 10 then [of_nat (0x30 + n)] else digits (n div 10) @ [of_nat (0x30 + n mod 10)])"
  by pat_completeness auto
termination
  by (relation "measure id") auto

declare digits.simps [simp del]

definition integerToString :: "int \<Rightarrow> jsstring" where
  "integerToString i = (if i < 0 then jsLit ''-'' @ digits (nat (- i)) else digits (nat i))"

fun commaSeparated :: "jsstring list \<Rightarrow> jsstring" where
  "commaSeparated [] = []"
| "commaSeparated [x] = x"
| "commaSeparated (x # y # ys) = x @ jsLit '','' @ commaSeparated (y # ys)"

subsection \<open>JSON.parse\<close>

fun skip_ws :: "jsstring \<Rightarrow> jsstring" where
  "skip_ws [] = []"
| "skip_ws (c # cs) =
     (if c = 0x20 \<or> c = 0x09 \<or> c = 0x0A \<or> c = 0x0D then skip_ws cs else c # cs)"

definition hexval :: "codeunit \<Rightarrow> nat option" where
  "hexval c =
     (let u = unat c
      in if 0x30 \<le> u \<and> u \<le> 0x39 then Some (u - 0x30)
         else if 0x61 \<le> u \<and> u \<le> 0x66 then Some (u - 0x57)
         else if 0x41 \<le> u \<and> u \<le> 0x46 then Some (u - 0x37)
         else None)"

definition unescape :: "codeunit \<Rightarrow> codeunit option" where
  "unescape e =
     (if e = 0x22 then Some 0x22
      else if e = 0x5C then Some 0x5C
      else if e = 0x2F then Some 0x2F
      else if e = 0x62 then Some 0x08
      else if e = 0x66 then Some 0x0C
      else if e = 0x6E then Some 0x0A
      else if e = 0x72 then Some 0x0D
      else if e = 0x74 then Some 0x09
      else None)"

definition consChar :: "codeunit \<Rightarrow> (jsstring \<times> jsstring) option \<Rightarrow> (jsstring \<times> jsstring) option" where
  "consChar c r = (case r of None \<Rightarrow> None | Some (s, rest) \<Rightarrow> Some (c # s, rest))"

text \<open>The characters of a string literal after its opening quote, up to and including
  the closing quote: the string value and the rest of the input.\<close>

fun parse_chars :: "jsstring \<Rightarrow> (jsstring \<times> jsstring) option" where
  "parse_chars [] = None"
| "parse_chars (c # cs) =
     (if c = 0x22 then Some ([], cs)
      else if c = 0x5C then
        (case cs of
           [] \<Rightarrow> None
         | e # r \<Rightarrow>
             if e = 0x75 then
               (case r of
                  h1 # h2 # h3 # h4 # r' \<Rightarrow>
                    (case (hexval h1, hexval h2, hexval h3, hexval h4) of
                       (Some a, Some b, Some c', Some d) \<Rightarrow>
                         consChar (of_nat (a * 0x1000 + b * 0x100 + c' * 0x10 + d)) (parse_chars r')
                     | _ \<Rightarrow> None)
                | _ \<Rightarrow> None)
             else
               (case unescape e of
                  None \<Rightarrow> None
                | Some x \<Rightarrow> consChar x (parse_chars r)))
      else if c < 0x20 then None
      else consChar c (parse_chars cs))"

definition isDigit :: "codeunit \<Rightarrow> bool" where
  "isDigit c = (0x30 \<le> c \<and> c \<le> 0x39)"

fun take_digits :: "jsstring \<Rightarrow> nat list \<times> jsstring" where
  "take_digits [] = ([], [])"
| "take_digits (c # cs) =
     (if isDigit c then (case take_digits cs of (ds, rest) \<Rightarrow> ((unat c - 0x30) # ds, rest))
      else ([], c # cs))"

definition natOfDigits :: "nat list \<Rightarrow> nat" where
  "natOfDigits ds = foldl (\<lambda>a d. 10 * a + d) 0 ds"

text \<open>A number literal: \<open>-? (0 | [1-9][0-9]*) (. [0-9]+)? ([eE] [+-]? [0-9]+)?\<close>.\<close>

definition parse_fraction :: "jsstring \<Rightarrow> (rat \<times> jsstring) option" where
  "parse_fraction cs =
     (case cs of
        c # r \<Rightarrow>
          if c = 0x2E then
            (case take_digits r of
               (fs, rest) \<Rightarrow>
                 if fs = [] then None
                 else Some (of_nat (natOfDigits fs) / 10 ^ length fs, rest))
          else Some (0, cs)
      | [] \<Rightarrow> Some (0, cs))"

definition parse_exponent :: "jsstring \<Rightarrow> (int \<times> jsstring) option" where
  "parse_exponent cs =
     (case cs of
        c # r \<Rightarrow>
          if c = 0x65 \<or> c = 0x45 then
            (let (neg, r') = (case r of s # t \<Rightarrow> if s = 0x2D then (True, t)
                                                  else if s = 0x2B then (False, t) else (False, r)
                              | [] \<Rightarrow> (False, r))
             in case take_digits r' of
                  (es, rest) \<Rightarrow>
                    if es = [] then None
                    else Some (if neg then - int (natOfDigits es) else int (natOfDigits es), rest))
          else Some (0, cs)
      | [] \<Rightarrow> Some (0, cs))"

text \<open>The number value of a literal with the sign \<open>neg\<close> and the exact magnitude \<open>m\<close>: the
  nearest binary64 value, an infinity from \<open>2^1024\<close> on, and a signed zero.\<close>

definition numberValue :: "bool \<Rightarrow> rat \<Rightarrow> number" where
  "numberValue neg m =
     (let y = fround m
      in if 2 ^ 1024 \<le> y then (if neg then NegativeInfinity else PositiveInfinity)
         else if y = 0 then (if neg then NegativeZero else Finite 0)
         else Finite (if neg then - y else y))"

definition parse_number :: "jsstring \<Rightarrow> (number \<times> jsstring) option" where
  "parse_number cs =
     (let (neg, cs1) = (case cs of c # r \<Rightarrow> if c = 0x2D then (True, r) else (False, cs)
                        | [] \<Rightarrow> (False, cs))
      in case take_digits cs1 of
           (ds, cs2) \<Rightarrow>
             if ds = [] \<or> (length ds > 1 \<and> hd ds = 0) then None
             else
               (case parse_fraction cs2 of
                  None \<Rightarrow> None
                | Some (fr, cs3) \<Rightarrow>
                    (case parse_exponent cs3 of
                       None \<Rightarrow> None
                     | Some (e, cs4) \<Rightarrow>
                         (let m = of_nat (natOfDigits ds) + fr;
                              x = (if e < 0 then m / 10 ^ nat (- e) else m * 10 ^ nat e)
                          in Some (numberValue neg x, cs4)))))"

text \<open>The properties of an object. An array index is the decimal form, without leading
  zeros, of an integer from \<open>0\<close> to \<open>2^32 - 2\<close>. \<open>defineProperty\<close> is \<open>CreateDataProperty\<close>
  on the list of properties in enumeration order: an existing key keeps its place and takes
  the new value, a new array index goes before the first greater index or other key, and any
  other new key goes to the end. \<open>objectOf\<close> defines the members of an object literal in
  the order of the text, so that of two members with one key the later one gives the value.\<close>

definition arrayIndex :: "jsstring \<Rightarrow> nat option" where
  "arrayIndex k =
     (case take_digits k of
        (ds, rest) \<Rightarrow>
          if ds \<noteq> [] \<and> rest = [] \<and> (length ds = 1 \<or> hd ds \<noteq> 0) \<and> natOfDigits ds < 2 ^ 32 - 1
          then Some (natOfDigits ds) else None)"

definition keyBefore :: "jsstring \<Rightarrow> jsstring \<Rightarrow> bool" where
  "keyBefore k k' =
     (case arrayIndex k of
        None \<Rightarrow> False
      | Some n \<Rightarrow> (case arrayIndex k' of None \<Rightarrow> True | Some n' \<Rightarrow> n < n'))"

fun defineProperty :: "jsstring \<Rightarrow> json \<Rightarrow> (jsstring \<times> json) list \<Rightarrow> (jsstring \<times> json) list" where
  "defineProperty k v [] = [(k, v)]"
| "defineProperty k v ((k', v') # ps) =
     (if k = k' then (k, v) # ps
      else if keyBefore k k' then (k, v) # (k', v') # ps
      else (k', v') # defineProperty k v ps)"

definition objectOf :: "(jsstring \<times> json) list \<Rightarrow> (jsstring \<times> json) list" where
  "objectOf ms = foldl (\<lambda>ps (k, v). defineProperty k v ps) [] ms"

lemma length_skip_ws: "length (skip_ws cs) \<le> length cs"
  by (induction cs) auto

lemma length_parse_chars: "parse_chars cs = Some (s, rest) \<Longrightarrow> length rest < length cs"
proof (induction cs arbitrary: s rule: parse_chars.induct)
  case 1
  then show ?case by simp
next
  case (2 c cs)
  then show ?case
    by (auto simp: consChar_def split: if_splits list.splits option.splits prod.splits)
       fastforce+
qed

definition startsWith :: "jsstring \<Rightarrow> jsstring \<Rightarrow> bool" where
  "startsWith cs p = (take (length p) cs = p)"

lemma skip_ws_Cons:
  "skip_ws cs = d # ds \<Longrightarrow> Suc (length ds) \<le> length cs \<and> length (skip_ws ds) < length cs"
proof -
  assume a: "skip_ws cs = d # ds"
  have "length (skip_ws cs) \<le> length cs" by (rule length_skip_ws)
  with a have 1: "Suc (length ds) \<le> length cs" by simp
  have "length (skip_ws ds) \<le> length ds" by (rule length_skip_ws)
  with 1 show ?thesis by simp
qed

text \<open>A JSON value at the head of the input, and the elements of an array and the members
  of an object after the opening bracket. A successful \<open>parse_value\<close> always consumes
  input; the tests \<open>length rest < length inp\<close> only make that evident where the recursion
  continues on what a sub-parser left.\<close>

function parse_value :: "jsstring \<Rightarrow> (json \<times> jsstring) option"
  and parse_elements :: "jsstring \<Rightarrow> (json list \<times> jsstring) option"
  and parse_members :: "jsstring \<Rightarrow> ((jsstring \<times> json) list \<times> jsstring) option"
where
  "parse_value inp =
     (case inp of
        [] \<Rightarrow> None
      | c # cs \<Rightarrow>
          if c = 0x22 then
            (case parse_chars cs of None \<Rightarrow> None | Some (s, rest) \<Rightarrow> Some (JString s, rest))
          else if c = 0x5B then
            (case skip_ws cs of
               [] \<Rightarrow> None
             | d # ds \<Rightarrow>
                 if d = 0x5D then Some (JArray [], ds)
                 else (case parse_elements (d # ds) of
                         None \<Rightarrow> None
                       | Some (vs, rest) \<Rightarrow> Some (JArray vs, rest)))
          else if c = 0x7B then
            (case skip_ws cs of
               [] \<Rightarrow> None
             | d # ds \<Rightarrow>
                 if d = 0x7D then Some (JObject [], ds)
                 else (case parse_members (d # ds) of
                         None \<Rightarrow> None
                       | Some (ms, rest) \<Rightarrow> Some (JObject (objectOf ms), rest)))
          else if startsWith inp (jsLit ''true'') then Some (JBool True, drop 4 inp)
          else if startsWith inp (jsLit ''false'') then Some (JBool False, drop 5 inp)
          else if startsWith inp (jsLit ''null'') then Some (JNull, drop 4 inp)
          else (case parse_number inp of
                  None \<Rightarrow> None
                | Some (x, rest) \<Rightarrow> Some (JNumber x, rest)))"
| "parse_elements inp =
     (case parse_value inp of
        None \<Rightarrow> None
      | Some (v, rest) \<Rightarrow>
          if length rest < length inp then
            (case skip_ws rest of
               [] \<Rightarrow> None
             | d # ds \<Rightarrow>
                 if d = 0x2C then
                   (case parse_elements (skip_ws ds) of
                      None \<Rightarrow> None
                    | Some (vs, rest') \<Rightarrow> Some (v # vs, rest'))
                 else if d = 0x5D then Some ([v], ds)
                 else None)
          else None)"
| "parse_members inp =
     (case inp of
        [] \<Rightarrow> None
      | c # cs \<Rightarrow>
          if c \<noteq> 0x22 then None
          else
            (case parse_chars cs of
               None \<Rightarrow> None
             | Some (k, rest) \<Rightarrow>
                 if length rest < length cs then
                   (case skip_ws rest of
                      [] \<Rightarrow> None
                    | d # ds \<Rightarrow>
                        if d \<noteq> 0x3A then None
                        else
                          (case parse_value (skip_ws ds) of
                             None \<Rightarrow> None
                           | Some (v, rest2) \<Rightarrow>
                               if length rest2 < length (skip_ws ds) then
                                 (case skip_ws rest2 of
                                    [] \<Rightarrow> None
                                  | e # es \<Rightarrow>
                                      if e = 0x2C then
                                        (case parse_members (skip_ws es) of
                                           None \<Rightarrow> None
                                         | Some (ms, rest') \<Rightarrow> Some ((k, v) # ms, rest'))
                                      else if e = 0x7D then Some ([(k, v)], es)
                                      else None)
                               else None))
                 else None))"
  by pat_completeness auto
termination
  by (relation "measure (\<lambda>x. case x of Inl inp \<Rightarrow> 2 * length inp
                                   | Inr (Inl inp) \<Rightarrow> 2 * length inp + 1
                                   | Inr (Inr inp) \<Rightarrow> 2 * length inp + 1)")
     (auto dest!: skip_ws_Cons)

declare parse_value.simps [simp del] parse_elements.simps [simp del] parse_members.simps [simp del]

text \<open>\<open>JSON.parse(text)\<close>: one value between optional white space; \<open>None\<close> stands for the
  \<open>SyntaxError\<close>.\<close>

definition JSON_parse :: "jsstring \<Rightarrow> json option" where
  "JSON_parse text =
     (case parse_value (skip_ws text) of
        None \<Rightarrow> None
      | Some (v, rest) \<Rightarrow> if skip_ws rest = [] then Some v else None)"

section \<open>src/crypto/key-manager.js\<close>

text \<open>The Web Crypto primitives are parameters of the model: \<open>pbkdf2 password salt
  iterations\<close> stands for \<open>importKey('raw', password, 'PBKDF2')\<close> followed by
  \<open>deriveKey\<close> with HMAC-SHA-256 to a 256-bit AES-GCM key, and \<open>aesGcm key iv data\<close> for
  \<open>crypto.subtle.encrypt({name: 'AES-GCM', iv}, key, data)\<close>. PBKDF2 is defined for every
  password, the empty one included, so \<open>pbkdf2\<close> is a total function.\<close>

definition deriveKey :: "(byte list \<Rightarrow> byte list \<Rightarrow> nat \<Rightarrow> 'key) \<Rightarrow> jsstring \<Rightarrow> byte list \<Rightarrow> error + 'key" where
  "deriveKey pbkdf2 password salt =
     (let passwordBuffer = TextEncoder_encode password;
          keyMaterial = passwordBuffer
      in Inr (pbkdf2 keyMaterial salt 100000))"

section \<open>src/crypto/encryptor.js\<close>

definition encryptChunk :: "('key \<Rightarrow> byte list \<Rightarrow> byte list \<Rightarrow> byte list) \<Rightarrow> byte list \<Rightarrow> 'key \<Rightarrow> byte list \<Rightarrow> byte list" where
  "encryptChunk aesGcm data key iv = aesGcm key iv data"

text \<open>\<open>Encryptor.prepareKey\<close>: \<open>if (password)\<close> holds for a string that is neither \<open>null\<close>
  nor empty. The freshly generated random key and \<open>exportKey\<close> are parameters.\<close>

definition Encryptor_prepareKey ::
  "(byte list \<Rightarrow> byte list \<Rightarrow> nat \<Rightarrow> 'key) \<Rightarrow> 'key \<Rightarrow> ('key \<Rightarrow> byte list)
     \<Rightarrow> jsstring option \<Rightarrow> byte list \<Rightarrow> error + 'key \<times> byte list option" where
  "Encryptor_prepareKey pbkdf2 randomKey exportKey password salt =
     (if password \<noteq> None \<and> password \<noteq> Some [] then
        (case deriveKey pbkdf2 (the password) salt of
           Inl e \<Rightarrow> Inl e
         | Inr key \<Rightarrow> Inr (key, None))
      else Inr (randomKey, Some (exportKey randomKey)))"

text \<open>The metadata object of \<open>createMetadata\<close>. \<open>key\<close> is \<open>Array.from(keyData)\<close>, an array
  of the byte values, or \<open>null\<close>.\<close>

record metadata =
  version :: jsstring
  filename :: jsstring
  mimeType :: jsstring
  hasPassword :: bool
  chunksCount :: int
  timestamp :: int
  key :: "byte list option"

definition createMetadata :: "int \<Rightarrow> jsstring \<Rightarrow> jsstring \<Rightarrow> bool \<Rightarrow> int \<Rightarrow> byte list option \<Rightarrow> metadata" where
  "createMetadata now filename' mimeType' hasPassword' chunksCount' keyData =
     \<lparr>version = jsLit ''1.0'', filename = filename', mimeType = mimeType',
      hasPassword = hasPassword', chunksCount = chunksCount', timestamp = now,
      key = keyData\<rparr>"

text \<open>\<open>JSON.stringify\<close> applied to a metadata object: the members in insertion order, no
  white space.\<close>

definition JSON_stringify :: "metadata \<Rightarrow> jsstring" where
  "JSON_stringify m =
     jsLit ''{'' @
     commaSeparated
       [quoteJSONString (jsLit ''version'') @ jsLit '':'' @ quoteJSONString (version m),
        quoteJSONString (jsLit ''filename'') @ jsLit '':'' @ quoteJSONString (filename m),
        quoteJSONString (jsLit ''mimeType'') @ jsLit '':'' @ quoteJSONString (mimeType m),
        quoteJSONString (jsLit ''hasPassword'') @ jsLit '':'' @
          (if hasPassword m then jsLit ''true'' else jsLit ''false''),
        quoteJSONString (jsLit ''chunksCount'') @ jsLit '':'' @ integerToString (chunksCount m),
        quoteJSONString (jsLit ''timestamp'') @ jsLit '':'' @ integerToString (timestamp m),
        quoteJSONString (jsLit ''key'') @ jsLit '':'' @
          (case key m of
             None \<Rightarrow> jsLit ''null''
           | Some bs \<Rightarrow> jsLit ''['' @ commaSeparated (map (\<lambda>b. integerToString (uint b)) bs) @ jsLit '']'')] @
     jsLit ''}''"

text \<open>The value \<open>JSON.parse\<close> gives back for the text of a metadata object.\<close>

definition json_of_metadata :: "metadata \<Rightarrow> json" where
  "json_of_metadata m =
     JObject
       [(jsLit ''version'', JString (version m)),
        (jsLit ''filename'', JString (filename m)),
        (jsLit ''mimeType'', JString (mimeType m)),
        (jsLit ''hasPassword'', JBool (hasPassword m)),
        (jsLit ''chunksCount'', JNumber (Finite (of_int (chunksCount m)))),
        (jsLit ''timestamp'', JNumber (Finite (of_int (timestamp m)))),
        (jsLit ''key'', (case key m of
                        None \<Rightarrow> JNull
                      | Some bs \<Rightarrow> JArray (map (\<lambda>b. JNumber (Finite (of_int (uint b)))) bs)))]"

text \<open>\<open>DataView.setUint32(offset, n, true)\<close> and \<open>getUint32(0, true)\<close>: little-endian.\<close>

definition setUint32_le :: "nat \<Rightarrow> byte list" where
  "setUint32_le n = rev (setUint32_be n)"

definition getUint32_le :: "byte list \<Rightarrow> nat" where
  "getUint32_le bs = getUint32_be (rev bs)"

definition serializeMetadata :: "metadata \<Rightarrow> byte list" where
  "serializeMetadata m =
     (let json = JSON_stringify m;
          metadataBytes = TextEncoder_encode json
      in metadataBytes @ setUint32_le (length metadataBytes))"

text \<open>\<open>buildEncryptedFile\<close> returns a \<open>Blob\<close> of the parts; its content is their
  concatenation.\<close>

definition buildEncryptedFile :: "byte list \<Rightarrow> byte list \<Rightarrow> byte list list \<Rightarrow> byte list \<Rightarrow> byte list" where
  "buildEncryptedFile salt iv encryptedChunks metadata' =
     concat ([salt, iv] @ encryptedChunks @ [metadata'])"

section \<open>Decryptor.parseEncryptedFile\<close>

record parsedFile =
  pf_salt :: "byte list"
  pf_iv :: "byte list"
  pf_encryptedData :: "byte list"
  pf_metadata :: json

definition parseEncryptedFile :: "byte list \<Rightarrow> error + parsedFile" where
  "parseEncryptedFile fileData =
     (let data = fileData in
      if length data < 28 + 4 then Inl FormatError
      else
        (let salt = slice data 0 16;
             iv = slice data 16 28;
             metadataLength = getUint32_le (slice data (length data - 4) (length data))
         in if metadataLength \<le> 0 \<or> metadataLength > length data - 32 then Inl FormatError
            else
              (let metadataStart = length data - 4 - metadataLength
               in if metadataStart < 28 then Inl FormatError
                  else
                    (let metadataBytes = slice data metadataStart (length data - 4);
                         metadataJson = TextDecoder_decode metadataBytes
                     in case JSON_parse metadataJson of
                          None \<Rightarrow> Inl FormatError
                        | Some metadata' \<Rightarrow>
                            Inr \<lparr>pf_salt = salt, pf_iv = iv,
                                 pf_encryptedData = slice data 28 metadataStart,
                                 pf_metadata = metadata'\<rparr>))))"

lemmas eval_json = JSON_parse_def parse_value.simps parse_members.simps parse_elements.simps
  jsLit_def startsWith_def parse_number_def parse_fraction_def parse_exponent_def isDigit_def
  natOfDigits_def consChar_def unescape_def hexval_def Let_def

text \<open>The encryption loop of \<open>handleEncryption\<close> (the \<open>for await\<close> over
  \<open>reader.readChunks()\<close>): every chunk is passed to \<open>encryptChunk\<close> with the one key (\<open>cryptoKey\<close>) and
  the one \<open>iv\<close> generated before the loop. \<open>sealed_data\<close> is what the loop pushes onto
  \<open>encryptedChunks\<close>; \<open>sealed_index\<close> and \<open>sealed_iv\<close> record the chunk index and the \<open>iv\<close>
  argument of the call.\<close>

record sealedChunk =
  sealed_index :: nat
  sealed_iv :: "byte list"
  sealed_data :: "byte list"

definition encryptFileChunks :: "('key \<Rightarrow> byte list \<Rightarrow> byte list \<Rightarrow> byte list) \<Rightarrow> 'key \<Rightarrow> byte list \<Rightarrow> byte list \<Rightarrow> sealedChunk list" where
  "encryptFileChunks aesGcm cryptoKey iv file =
     map (\<lambda>chunk. \<lparr>sealed_index = chunk_index chunk, sealed_iv = iv,
                     sealed_data = encryptChunk aesGcm (chunk_data chunk) cryptoKey iv\<rparr>)
         (readChunks file)"

section \<open>Capacity\<close>

subsection \<open>Exact results of the number arithmetic\<close>

lemma bitLength_le: "n < 2 ^ k \<Longrightarrow> bitLength n \<le> k"
proof (induction n arbitrary: k rule: bitLength.induct)
  case (1 n)
  show ?case
  proof (cases "n = 0")
    case True
    then show ?thesis by (simp add: bitLength.simps)
  next
    case False
    with 1(2) obtain j where k: "k = Suc j" by (cases k) auto
    with 1(2) have "n div 2 < 2 ^ j" by simp
    with 1(1) [OF False] have "bitLength (n div 2) \<le> j" by simp
    with False k show ?thesis by (simp add: bitLength.simps [of n])
  qed
qed

lemma roundHalfEven_of_int: "roundHalfEven (of_int z) = z"
  by (simp add: roundHalfEven_def)

text \<open>A rational \<open>p / 2 ^ j\<close> whose numerator fits in 53 bits is a binary64 value.\<close>

lemma fround_exact:
  assumes x: "x = of_int p / 2 ^ j" and p: "\<bar>p\<bar> < 2 ^ 53" and j: "j \<le> 52"
  shows "fround x = x"
proof (cases "x = 0")
  case True
  then show ?thesis by (simp add: fround_def)
next
  case False
  define a where "a = \<bar>x\<bar>"
  define e where "e = max (binaryExponent a - 52) (- 1074)"
  define d where "d = nat (- e)"
  have a: "a = of_int \<bar>p\<bar> / 2 ^ j" by (simp add: a_def x)
  have be: "binaryExponent a \<le> 52 - int j"
  proof (cases "1 \<le> a")
    case True
    have "(of_int \<bar>p\<bar> :: rat) < of_int (2 ^ 53)"
      using p by (simp only: of_int_less_iff)
    then have "(of_int \<bar>p\<bar> :: rat) < 2 ^ 53" by simp
    then have "a < 2 ^ 53 / 2 ^ j"
      unfolding a by (simp add: divide_strict_right_mono)
    also have "(2::rat) ^ 53 / 2 ^ j = 2 ^ (53 - j)"
      using j by (simp add: power_diff)
    finally have "a < 2 ^ (53 - j)" .
    then have "a < of_int (2 ^ (53 - j))" by simp
    then have "\<lfloor>a\<rfloor> < 2 ^ (53 - j)"
      by (simp only: floor_less_iff)
    then have "nat \<lfloor>a\<rfloor> < 2 ^ (53 - j)"
      by (simp add: nat_less_iff)
    then have "bitLength (nat \<lfloor>a\<rfloor>) \<le> 53 - j" by (rule bitLength_le)
    with True j show ?thesis by (simp add: binaryExponent_def)
  next
    case False
    with j show ?thesis by (simp add: binaryExponent_def)
  qed
  have e: "e \<le> - int j" unfolding e_def using be j by simp
  then have dj: "j \<le> d" and e0: "e \<le> 0" by (simp_all add: d_def)
  have ulp: "pow2 e = 1 / 2 ^ d"
    using e0 by (cases "e = 0") (simp_all add: pow2_def d_def)
  have "(2::rat) ^ d = 2 ^ j * 2 ^ (d - j)" using dj by (simp flip: power_add)
  then have q: "x / pow2 e = of_int (p * 2 ^ (d - j))"
    by (simp add: ulp x)
  have "fround x = of_int (roundHalfEven (x / pow2 e)) * pow2 e"
    using False by (simp add: fround_def Let_def e_def a_def)
  also have "\<dots> = x / pow2 e * pow2 e"
    unfolding q roundHalfEven_of_int ..
  also have "\<dots> = x" by (simp add: ulp)
  finally show ?thesis .
qed

lemma fround_int: "\<bar>p\<bar> < 2 ^ 53 \<Longrightarrow> fround (of_int p) = of_int p"
  using fround_exact [of "of_int p" p 0] by simp

lemma fround_eighth: "\<bar>p\<bar> < 2 ^ 53 \<Longrightarrow> fround (of_int p / 8) = of_int p / 8"
  using fround_exact [of "of_int p / 8" p 3] by simp

lemma floor_rat_numeral:
  "\<lfloor>numeral a / numeral b :: rat\<rfloor> = numeral a div numeral b"
  by (metis floor_divide_of_int_eq of_int_numeral)

lemma floor_rat_neg_numeral:
  "\<lfloor>- (numeral a / numeral b) :: rat\<rfloor> = - numeral a div numeral b"
  by (metis divide_minus_left floor_divide_of_int_eq of_int_neg_numeral of_int_numeral)

lemmas eval_double = fmul_def fsub_def fdiv_def fround_def Let_def binaryExponent_def pow2_def
  roundHalfEven_def bitLength.simps ceiling_def floor_rat_numeral floor_rat_neg_numeral

subsection \<open>The capacity of an image\<close>

lemma hasCapacity_iff: "hasCapacity img n \<longleftrightarrow> int n \<le> getMaxCapacity img"
  by (simp add: hasCapacity_def getMaxCapacity_def)

lemma getMaxCapacity_exact:
  assumes "width img * height img * 3 \<le> 2 ^ 53"
  shows "getMaxCapacity img = (int (width img) * int (height img) * 3 - 32) div 8"
proof -
  define n where "n = int (width img) * int (height img)"
  have "int (width img * height img * 3) \<le> int (2 ^ 53)"
    using assms by (simp only: of_nat_le_iff)
  then have le: "n * 3 \<le> 9007199254740992" by (simp add: n_def)
  have "(n * 3) mod 3 = 0" by simp
  moreover have "(9007199254740992::int) mod 3 = 2" by simp
  ultimately have "n * 3 \<noteq> 9007199254740992" by (metis zero_neq_numeral)
  with le have lt: "n * 3 < 9007199254740992" by simp
  have n0: "0 \<le> n" by (simp add: n_def)
  have 1: "fmul (of_nat (width img)) (of_nat (height img)) = of_int n"
    using fround_int [of n] n0 lt by (simp add: fmul_def n_def)
  have 2: "fmul (of_int n) 3 = of_int (n * 3)"
    using fround_int [of "n * 3"] n0 lt by (simp add: fmul_def)
  have 3: "fsub (of_int (n * 3)) 32 = of_int (n * 3 - 32)"
    using fround_int [of "n * 3 - 32"] n0 lt by (simp add: fsub_def)
  have 4: "fdiv (of_int (n * 3 - 32)) 8 = of_int (n * 3 - 32) / 8"
    using fround_eighth [of "n * 3 - 32"] n0 lt by (simp add: fdiv_def)
  have "\<lfloor>(of_int (n * 3 - 32) :: rat) / 8\<rfloor> = (n * 3 - 32) div 8"
    using floor_divide_of_int_eq [of "n * 3 - 32" 8, where ?'a = rat] by simp
  then show ?thesis
    unfolding getMaxCapacity_def Let_def 1 2 3 4 by (simp add: n_def)
qed

lemma getMaxCapacity_4x4: "getMaxCapacity \<lparr>width = 4, height = 4, pixelData = ps\<rparr> = 2"
  by (simp add: getMaxCapacity_exact)

lemma hasCapacity_4x4: "hasCapacity \<lparr>width = 4, height = 4, pixelData = ps\<rparr> n \<longleftrightarrow> n \<le> 2"
  by (simp add: hasCapacity_iff getMaxCapacity_4x4)

text \<open>Beyond \<open>2^53\<close> the roundings show. For an image of 67108865 by 67108869 pixels the
  product \<open>totalPixels * 3 = 13510800090071055\<close> lies between two numbers and is rounded up
  to the even significand, so the result is one more than the exact quotient
  \<open>1688850011258877\<close>.\<close>

lemma getMaxCapacity_rounded:
  "getMaxCapacity \<lparr>width = 67108865, height = 67108869, pixelData = ps\<rparr> = 1688850011258878"
  by (simp add: getMaxCapacity_def eval_double)



section \<open>Chunk arithmetic\<close>

lemma CHUNK_SIZE_pos: "0 < CHUNK_SIZE" by (simp add: CHUNK_SIZE_def)

lemma chunk_count_step:
  assumes "offset < n" and "0 < c"
  shows "(n - offset + c - 1) div c = Suc ((n - min (offset + c) n + c - 1) div c)"
proof (cases "offset + c \<le> n")
  case True
  then have "n - offset + c - 1 = (n - (offset + c) + c - 1) + c" using assms by simp
  then have "(n - offset + c - 1) div c = (n - (offset + c) + c - 1) div c + 1"
    using assms(2) by (metis div_add_self2 less_numeral_extra(3))
  with True show ?thesis by (simp add: min_def)
next
  case False
  then have "n - offset + c - 1 < 2 * c" "c \<le> n - offset + c - 1" using assms by simp_all
  then have "(n - offset + c - 1) div c = 1"
    by (metis assms(2) div_nat_eqI mult.commute mult.right_neutral mult_2 one_add_one nat_mult_1_right plus_1_eq_Suc mult_Suc_right)
  moreover have "(n - min (offset + c) n + c - 1) div c = 0" using False assms by (simp add: min_def)
  ultimately show ?thesis by simp
qed

lemma readChunks_from_index:
  "map chunk_index (readChunks_from src offset k)
     = [k ..< k + (length src - offset + CHUNK_SIZE - 1) div CHUNK_SIZE]"
proof (induction src offset k rule: readChunks_from.induct)
  case (1 src offset chunkIndex)
  show ?case
  proof (cases "offset < length src")
    case True
    define m where "m = (length src - min (offset + CHUNK_SIZE) (length src) + CHUNK_SIZE - 1) div CHUNK_SIZE"
    have step: "(length src - offset + CHUNK_SIZE - 1) div CHUNK_SIZE = Suc m"
      unfolding m_def by (rule chunk_count_step [OF True CHUNK_SIZE_pos])
    have "map chunk_index (readChunks_from src offset chunkIndex)
        = chunkIndex # map chunk_index (readChunks_from src (min (offset + CHUNK_SIZE) (length src)) (chunkIndex + 1))"
      using True by (subst readChunks_from.simps) (simp add: Let_def)
    also have "\<dots> = chunkIndex # [chunkIndex + 1 ..< chunkIndex + 1 + m]"
      using "1.IH" [OF True refl refl refl] by (simp only: m_def)
    also have "\<dots> = [chunkIndex ..< chunkIndex + Suc m]"
      by (simp add: upt_conv_Cons)
    finally show ?thesis by (simp only: step)
  next
    case False
    then have "(length src - offset + CHUNK_SIZE - 1) div CHUNK_SIZE = 0"
      using CHUNK_SIZE_pos by simp
    with False show ?thesis by (subst readChunks_from.simps) simp
  qed
qed

lemma readChunks_from_sizes:
  "map (\<lambda>c. length (chunk_data c)) (readChunks_from src offset k)
     = map (\<lambda>i. min CHUNK_SIZE (length src - offset - i * CHUNK_SIZE))
         [0 ..< (length src - offset + CHUNK_SIZE - 1) div CHUNK_SIZE]"
proof (induction src offset k rule: readChunks_from.induct)
  case (1 src offset chunkIndex)
  show ?case
  proof (cases "offset < length src")
    case True
    define e where "e = min (offset + CHUNK_SIZE) (length src)"
    define m where "m = (length src - e + CHUNK_SIZE - 1) div CHUNK_SIZE"
    have step: "(length src - offset + CHUNK_SIZE - 1) div CHUNK_SIZE = Suc m"
      unfolding m_def e_def by (rule chunk_count_step [OF True CHUNK_SIZE_pos])
    have first: "length (slice src offset e) = min CHUNK_SIZE (length src - offset)"
      using True by (auto simp: slice_def e_def min_def)
    have rest: "i < m \<Longrightarrow> min CHUNK_SIZE (length src - e - i * CHUNK_SIZE)
        = min CHUNK_SIZE (length src - offset - Suc i * CHUNK_SIZE)" for i
    proof -
      assume "i < m"
      then have "0 < m" by simp
      then have "e = offset + CHUNK_SIZE"
        unfolding m_def e_def using CHUNK_SIZE_pos True
        by (cases "offset + CHUNK_SIZE \<le> length src") (simp_all add: min_def)
      then show ?thesis by (simp add: algebra_simps)
    qed
    have "map (\<lambda>c. length (chunk_data c)) (readChunks_from src offset chunkIndex)
        = length (slice src offset e) # map (\<lambda>c. length (chunk_data c)) (readChunks_from src e (chunkIndex + 1))"
      using True by (subst readChunks_from.simps) (simp add: Let_def e_def)
    also have "\<dots> = min CHUNK_SIZE (length src - offset)
          # map (\<lambda>i. min CHUNK_SIZE (length src - e - i * CHUNK_SIZE)) [0 ..< m]"
    proof -
      have "map (\<lambda>c. length (chunk_data c)) (readChunks_from src e (chunkIndex + 1))
          = map (\<lambda>i. min CHUNK_SIZE (length src - e - i * CHUNK_SIZE)) [0 ..< m]"
        unfolding m_def e_def by (rule "1.IH" [OF True refl refl refl])
      then show ?thesis by (simp only: first)
    qed
    also have "map (\<lambda>i. min CHUNK_SIZE (length src - e - i * CHUNK_SIZE)) [0 ..< m]
        = map (\<lambda>i. min CHUNK_SIZE (length src - offset - Suc i * CHUNK_SIZE)) [0 ..< m]"
      using rest by (intro map_cong) auto
    also have "min CHUNK_SIZE (length src - offset)
          # map (\<lambda>i. min CHUNK_SIZE (length src - offset - Suc i * CHUNK_SIZE)) [0 ..< m]
        = map (\<lambda>i. min CHUNK_SIZE (length src - offset - i * CHUNK_SIZE)) [0 ..< Suc m]"
      by (simp add: upt_conv_Cons map_Suc_upt [symmetric] del: upt_Suc)
    finally show ?thesis by (simp only: step)
  next
    case False
    then have "(length src - offset + CHUNK_SIZE - 1) div CHUNK_SIZE = 0"
      using CHUNK_SIZE_pos by simp
    with False show ?thesis by (subst readChunks_from.simps) simp
  qed
qed


lemma div_minus_pos_eq:
  fixes a c :: int
  assumes "0 < c"
  shows "- (- a div c) = (a + c - 1) div c"
proof -
  have "(a + c - 1) div c = ((a - 1) + c) div c" by (simp add: algebra_simps)
  also have "\<dots> = (a - 1) div c + 1" using assms by simp
  finally have 1: "(a + c - 1) div c = (a - 1) div c + 1" .
  have "- a div c = - ((a - 1) div c) - 1"
  proof -
    define q where "q = (a - 1) div c"
    define r where "r = (a - 1) mod c"
    have "a - 1 = c * q + r" by (simp add: q_def r_def)
    then have e: "- a = c * (- q - 1) + (c - r - 1)" by (simp add: algebra_simps)
    have "0 \<le> r" "r < c" using assms by (simp_all add: r_def)
    then have "0 \<le> c - r - 1" "c - r - 1 < c" by simp_all
    with e have "- a div c = - q - 1" by (rule int_div_pos_eq)
    then show ?thesis by (simp add: q_def)
  qed
  with 1 show ?thesis by simp
qed

lemma totalChunks_ceiling:
  "int (totalChunks src) = \<lceil>real (length src) / real CHUNK_SIZE\<rceil>"
proof -
  have "\<lceil>real (length src) / real CHUNK_SIZE\<rceil>
      = \<lceil>real_of_int (int (length src)) / real_of_int (int CHUNK_SIZE)\<rceil>"
    by simp
  also have "\<dots> = - (- int (length src) div int CHUNK_SIZE)"
    by (rule ceiling_divide_eq_div)
  also have "\<dots> = (int (length src) + int CHUNK_SIZE - 1) div int CHUNK_SIZE"
    using CHUNK_SIZE_pos by (simp add: div_minus_pos_eq)
  also have "\<dots> = int ((length src + CHUNK_SIZE - 1) div CHUNK_SIZE)"
    using CHUNK_SIZE_pos by (simp add: zdiv_int of_nat_diff)
  finally show ?thesis by (simp add: totalChunks_def)
qed

lemma chunk_size_cases:
  assumes "i < totalChunks src"
  shows "min CHUNK_SIZE (length src - i * CHUNK_SIZE)
       = (if i + 1 < totalChunks src then CHUNK_SIZE
          else length src - (totalChunks src - 1) * CHUNK_SIZE)"
proof -
  define t where "t = totalChunks src"
  have t: "t = (length src + CHUNK_SIZE - 1) div CHUNK_SIZE"
    by (simp add: t_def totalChunks_def)
  have pos: "0 < t" using assms by (simp add: t_def)
  have dm: "t * CHUNK_SIZE + (length src + CHUNK_SIZE - 1) mod CHUNK_SIZE
      = length src + CHUNK_SIZE - 1"
    unfolding t by (rule div_mult_mod_eq)
  have r: "(length src + CHUNK_SIZE - 1) mod CHUNK_SIZE < CHUNK_SIZE"
    using CHUNK_SIZE_pos by (rule mod_less_divisor)
  have up: "length src \<le> t * CHUNK_SIZE"
    using dm r by linarith
  obtain t' where t': "t = Suc t'" using pos by (cases t) simp_all
  have lo: "(t - 1) * CHUNK_SIZE < length src"
    using dm r CHUNK_SIZE_pos by (simp add: t')
  show ?thesis
  proof (cases "i + 1 < t")
    case True
    then have "i + 1 \<le> t - 1" by simp
    then have "(i + 1) * CHUNK_SIZE \<le> (t - 1) * CHUNK_SIZE" by (rule mult_le_mono1)
    with lo have "i * CHUNK_SIZE + CHUNK_SIZE < length src" by simp
    with True show ?thesis by (simp add: t_def)
  next
    case False
    with assms have i: "i = t - 1" by (simp add: t_def)
    have "length src - (t - 1) * CHUNK_SIZE \<le> CHUNK_SIZE"
      using up pos by (cases t) simp_all
    with False i show ?thesis by (simp add: t_def min_def)
  qed
qed

text \<open>
  Claim C7. For a byte source of length \<open>N\<close> and the fixed chunk size \<open>C\<close> of 10 MiB, the
  reader's \<open>totalChunks\<close> is \<open>ceil(N / C)\<close>; the chunks it yields carry the indices
  \<open>0 .. ceil(N / C) - 1\<close> in increasing order; every chunk but the last has exactly \<open>C\<close>
  bytes and the last has \<open>N - (ceil(N / C) - 1) * C\<close>; a 25 MiB source yields three chunks
  of 10, 10 and 5 MiB.
\<close>

theorem chunk_arithmetic:
  "int (totalChunks src) = \<lceil>real (length src) / real CHUNK_SIZE\<rceil>
   \<and> map chunk_index (readChunks src) = [0 ..< totalChunks src]
   \<and> map (\<lambda>c. length (chunk_data c)) (readChunks src)
       = map (\<lambda>i. if i + 1 < totalChunks src then CHUNK_SIZE
                   else length src - (totalChunks src - 1) * CHUNK_SIZE)
           [0 ..< totalChunks src]
   \<and> (length src = 25 * 1024 * 1024 \<longrightarrow>
        map (\<lambda>c. length (chunk_data c)) (readChunks src)
          = [10 * 1024 * 1024, 10 * 1024 * 1024, 5 * 1024 * 1024])"
proof -
  have idx: "map chunk_index (readChunks src) = [0 ..< totalChunks src]"
    by (simp add: readChunks_def readChunks_from_index totalChunks_def)
  have "map (\<lambda>c. length (chunk_data c)) (readChunks src)
      = map (\<lambda>i. min CHUNK_SIZE (length src - i * CHUNK_SIZE)) [0 ..< totalChunks src]"
    by (simp add: readChunks_def readChunks_from_sizes totalChunks_def)
  also have "\<dots> = map (\<lambda>i. if i + 1 < totalChunks src then CHUNK_SIZE
                   else length src - (totalChunks src - 1) * CHUNK_SIZE)
           [0 ..< totalChunks src]"
    by (intro map_cong refl chunk_size_cases) simp
  finally have sizes: "map (\<lambda>c. length (chunk_data c)) (readChunks src)
       = map (\<lambda>i. if i + 1 < totalChunks src then CHUNK_SIZE
                   else length src - (totalChunks src - 1) * CHUNK_SIZE)
           [0 ..< totalChunks src]" .
  have "map (\<lambda>c. length (chunk_data c)) (readChunks src)
          = [10 * 1024 * 1024, 10 * 1024 * 1024, 5 * 1024 * 1024]"
    if n: "length src = 25 * 1024 * 1024"
  proof -
    have t: "totalChunks src = 3" by (simp add: totalChunks_def n CHUNK_SIZE_def)
    have "[0 ..< 3] = [0, 1, 2::nat]" by (simp add: upt_rec)
    then show ?thesis by (simp add: sizes t n CHUNK_SIZE_def)
  qed
  with totalChunks_ceiling idx sizes show ?thesis by blast
qed

theorem chunk_arithmetic_witness:
  "length (replicate (25 * 1024 * 1024) (0::byte)) = 25 * 1024 * 1024
   \<and> totalChunks (replicate (25 * 1024 * 1024) 0) = 3
   \<and> map chunk_index (readChunks (replicate (25 * 1024 * 1024) 0)) = [0, 1, 2]
   \<and> map (\<lambda>c. length (chunk_data c)) (readChunks (replicate (25 * 1024 * 1024) 0))
       = [10 * 1024 * 1024, 10 * 1024 * 1024, 5 * 1024 * 1024]"
proof -
  have n: "length (replicate (25 * 1024 * 1024) (0::byte)) = 25 * 1024 * 1024" by simp
  have t: "totalChunks (replicate (25 * 1024 * 1024) 0) = 3"
    by (simp add: totalChunks_def CHUNK_SIZE_def)
  have u: "[0 ..< 3] = [0, 1, 2::nat]" by (simp add: upt_rec)
  from chunk_arithmetic [of "replicate (25 * 1024 * 1024) 0"] n t u show ?thesis
    by (simp add: CHUNK_SIZE_def)
qed

section \<open>The embedded bit stream\<close>

text \<open>
  Notions used to reason about \<open>hide\<close> and \<open>reveal\<close>. Stream position \<open>c\<close> is the
  \<open>c\<close>-th R, G or B sample in raster order; it lives at buffer index
  \<open>4 * (c div 3) + c mod 3\<close>, and the sample at buffer index \<open>k\<close> (with \<open>k mod 4 < 3\<close>)
  has stream position \<open>chanPos k\<close>.
\<close>

definition setLSB :: "byte \<Rightarrow> byte \<Rightarrow> byte" where
  "setLSB p b = (p AND NOT 1) OR b"

definition dataBit :: "byte list \<Rightarrow> nat \<Rightarrow> byte" where
  "dataBit fullData c = drop_bit (7 - c mod 8) (fullData ! (c div 8)) AND 1"

definition chanPos :: "nat \<Rightarrow> nat" where
  "chanPos k = 3 * (k div 4) + k mod 4"

lemma hide_step_cursor:
  "hide_step fullData k (pixels, c div 8, c mod 8)
     = (pixels[k := setLSB (pixels ! k) (dataBit fullData c)], Suc c div 8, Suc c mod 8)"
proof (cases "c mod 8 = 7")
  case True
  then have "Suc c mod 8 = 0" "Suc c div 8 = Suc (c div 8)"
    by (simp_all add: mod_Suc div_Suc)
  with True show ?thesis by (simp add: hide_step_def setLSB_def dataBit_def)
next
  case False
  then have "Suc c mod 8 = Suc (c mod 8)" "Suc c div 8 = c div 8"
    by (simp_all add: mod_Suc div_Suc)
  with False show ?thesis by (simp add: hide_step_def setLSB_def dataBit_def)
qed

definition write3 :: "byte list \<Rightarrow> nat \<Rightarrow> nat \<Rightarrow> byte list \<Rightarrow> byte list" where
  "write3 fullData i c pixels =
     (let T = 8 * length fullData;
          p1 = (if c < T then pixels[i := setLSB (pixels ! i) (dataBit fullData c)] else pixels);
          p2 = (if c + 1 < T then p1[i + 1 := setLSB (p1 ! (i + 1)) (dataBit fullData (c + 1))] else p1)
      in if c + 2 < T then p2[i + 2 := setLSB (p2 ! (i + 2)) (dataBit fullData (c + 2))] else p2)"

lemma hide_channels_cursor:
  assumes "c < 8 * length fullData"
  shows "hide_channels fullData i [0, 1, 2] (pixels, c div 8, c mod 8) =
     (write3 fullData i c pixels,
      min (c + 3) (8 * length fullData) div 8, min (c + 3) (8 * length fullData) mod 8)"
proof -
  have g: "(length fullData \<le> x div 8) = (\<not> x < 8 * length fullData)" for x
    by (auto simp: less_mult_imp_div_less div_less_iff_less_mult)
  have e: "x < 8 * length fullData \<Longrightarrow> \<not> Suc x < 8 * length fullData
      \<Longrightarrow> Suc x div 8 = length fullData \<and> Suc x mod 8 = 0" for x
    by presburger
  show ?thesis
    using assms
    by (simp add: hide_step_cursor g Let_def min_def write3_def) (auto simp: e add.commute)
qed

lemma nth_write3:
  assumes "k < length pixels"
  shows "write3 fullData i c pixels ! k =
     (if i \<le> k \<and> k < i + 3 \<and> c + (k - i) < 8 * length fullData
      then setLSB (pixels ! k) (dataBit fullData (c + (k - i))) else pixels ! k)"
proof -
  consider "k = i" | "k = i + 1" | "k = i + 2" | "k < i \<or> i + 3 \<le> k" by linarith
  then show ?thesis
  proof cases
    case 1 with assms show ?thesis by (simp add: write3_def Let_def nth_list_update)
  next
    case 2 with assms show ?thesis by (simp add: write3_def Let_def nth_list_update)
  next
    case 3 with assms show ?thesis by (simp add: write3_def Let_def nth_list_update)
  next
    case 4 with assms show ?thesis by (auto simp: write3_def Let_def nth_list_update)
  qed
qed

lemma length_write3 [simp]: "length (write3 fullData i c pixels) = length pixels"
  by (simp add: write3_def Let_def)

lemma pixel_group:
  fixes i k :: nat
  assumes "i mod 4 = 0" and "i \<le> k" and "k < i + 4"
  shows "k div 4 = i div 4" and "k mod 4 = k - i"
  using assms by presburger+

lemma hide_loop_nth:
  assumes "i mod 4 = 0" and "b < 8"
    and "8 * d + b = min (3 * (i div 4)) (8 * length fullData)" and "k < length pixels"
  shows "fst (hide_loop fullData i (pixels, d, b)) ! k =
     (if i \<le> k \<and> k mod 4 < 3 \<and> chanPos k < 8 * length fullData
      then setLSB (pixels ! k) (dataBit fullData (chanPos k)) else pixels ! k)"
  using assms
proof (induction fullData i "(pixels, d, b)" arbitrary: pixels d b rule: hide_loop.induct)
  case (1 fullData i pixels d b)
  define c where "c = 8 * d + b"
  define T where "T = 8 * length fullData"
  have db: "d = c div 8" "b = c mod 8" using \<open>b < 8\<close> by (simp_all add: c_def)
  have cmin: "c = min (3 * (i div 4)) T" using "1.prems"(3) by (simp add: c_def T_def)
  show ?case
  proof (cases "i < length pixels \<and> d < length fullData")
    case False
    then have stop: "hide_loop fullData i (pixels, d, b) = (pixels, d, b)"
      by (subst hide_loop.simps) auto
    have "\<not> (i \<le> k \<and> k mod 4 < 3 \<and> chanPos k < T)"
    proof
      assume a: "i \<le> k \<and> k mod 4 < 3 \<and> chanPos k < T"
      with \<open>k < length pixels\<close> False have "length fullData \<le> d" by simp
      then have "T \<le> c" by (simp add: c_def T_def)
      with cmin have "T \<le> 3 * (i div 4)" by simp
      moreover have "3 * (i div 4) \<le> chanPos k"
        using a by (simp add: chanPos_def div_le_mono trans_le_add1)
      ultimately show False using a by simp
    qed
    with stop show ?thesis unfolding T_def by auto
  next
    case True
    then have cT: "c < T" using \<open>b < 8\<close> by (simp add: c_def T_def)
    with cmin have c3: "c = 3 * (i div 4)" by simp
    define c' where "c' = min (c + 3) T"
    define p' where "p' = write3 fullData i c pixels"
    have ch: "hide_channels fullData i [0, 1, 2] (pixels, d, b) = (p', c' div 8, c' mod 8)"
      unfolding db p'_def c'_def T_def
      by (rule hide_channels_cursor) (use cT in \<open>simp add: T_def\<close>)
    have step: "hide_loop fullData i (pixels, d, b) = hide_loop fullData (i + 4) (p', c' div 8, c' mod 8)"
    proof -
      have "hide_loop fullData i (pixels, d, b)
          = hide_loop fullData (i + 4) (hide_channels fullData i [0, 1, 2] (pixels, d, b))"
        using True by (subst hide_loop.simps) (simp del: hide_channels.simps One_nat_def)
      then show ?thesis by (simp only: ch)
    qed
    have c'min: "8 * (c' div 8) + c' mod 8 = min (3 * ((i + 4) div 4)) (8 * length fullData)"
      using c3 by (simp add: c'_def T_def)
    have kp': "k < length p'" using \<open>k < length pixels\<close> by (simp add: p'_def)
    have IH: "fst (hide_loop fullData (i + 4) (p', c' div 8, c' mod 8)) ! k =
       (if i + 4 \<le> k \<and> k mod 4 < 3 \<and> chanPos k < 8 * length fullData
        then setLSB (p' ! k) (dataBit fullData (chanPos k)) else p' ! k)"
      using True "1.prems"(1) c'min kp'
      by (intro "1.hyps" [OF _ _ ch]) simp_all
    have p'k: "p' ! k = (if i \<le> k \<and> k < i + 3 \<and> c + (k - i) < T
        then setLSB (pixels ! k) (dataBit fullData (c + (k - i))) else pixels ! k)"
      unfolding p'_def T_def using \<open>k < length pixels\<close> by (rule nth_write3)
    consider "k < i" | "i \<le> k" "k < i + 3" | "k = i + 3" | "i + 4 \<le> k" by linarith
    then show ?thesis
    proof cases
      case 1
      then show ?thesis by (simp add: step IH p'k)
    next
      case 2
      then have "k div 4 = i div 4" "k mod 4 = k - i"
        using pixel_group [OF "1.prems"(1), of k] by simp_all
      then have "chanPos k = c + (k - i)" by (simp add: chanPos_def c3)
      with 2 \<open>k mod 4 = k - i\<close> show ?thesis by (simp add: step IH p'k T_def)
    next
      case 3
      then have "k mod 4 = 3" using "1.prems"(1) by presburger
      moreover from 3 have "\<not> k < i + 3" "\<not> i + 4 \<le> k" by simp_all
      ultimately show ?thesis by (simp add: step IH p'k)
    next
      case 4
      then show ?thesis by (simp add: step IH p'k)
    qed
  qed
qed

subsection \<open>Reading the stream back\<close>

definition lsbAt :: "byte list \<Rightarrow> nat \<Rightarrow> nat" where
  "lsbAt pixels c = sampleBit pixels (4 * (c div 3) + c mod 3)"

fun bitsVal :: "(nat \<Rightarrow> nat) \<Rightarrow> nat \<Rightarrow> nat \<Rightarrow> nat" where
  "bitsVal f s 0 = 0"
| "bitsVal f s (Suc n) = 2 * bitsVal f s n + f (s + n)"

definition bytesUpTo :: "(nat \<Rightarrow> nat) \<Rightarrow> nat \<Rightarrow> nat \<Rightarrow> nat \<Rightarrow> byte list" where
  "bytesUpTo f s n m = map (\<lambda>q. if q < m then of_nat (bitsVal f (s + 8 * q) 8) else 0) [0 ..< n]"

definition hdrState :: "(nat \<Rightarrow> nat) \<Rightarrow> nat \<Rightarrow> byte list \<times> nat \<times> nat \<times> nat" where
  "hdrState f h = (bytesUpTo f 0 4 (h div 8), h div 8, h mod 8, bitsVal f (8 * (h div 8)) (h mod 8))"

lemma odd_unat: "odd (unat (x::byte)) \<longleftrightarrow> odd x"
  by (simp add: bit_0 [symmetric] bit_unsigned_iff del: bit_0)

lemma unat_and1: "unat ((x::byte) AND 1) = unat x mod 2"
  by (simp add: unsigned_and_eq and_one_eq mod_2_eq_odd odd_unat)

lemma unat_bit_of: "unat (drop_bit n (w::byte) AND 1) = (unat w div 2 ^ n) mod 2"
  using unat_drop_bit_eq [of n w] by (simp add: unat_and1 drop_bit_eq_div)

lemma sampleBit_le1: "sampleBit pixels k \<le> 1"
proof (cases "k < length pixels")
  case True
  have "unat (pixels ! k) mod 2 < 2" by simp
  then have "unat (pixels ! k) mod 2 \<le> 1" by linarith
  with True show ?thesis by (simp add: sampleBit_def unat_and1)
next
  case False
  then show ?thesis by (simp add: sampleBit_def)
qed

lemma lsbAt_le1: "lsbAt pixels c \<le> 1"
  unfolding lsbAt_def by (rule sampleBit_le1)

lemma shift_or_bit:
  fixes c b :: nat
  assumes "b \<le> 1"
  shows "push_bit 1 c OR b = 2 * c + b"
proof -
  from assms consider "b = 0" | "b = 1" by linarith
  then show ?thesis
  proof cases
    case 1 then show ?thesis by simp
  next
    case 2
    have "2 * c OR (1::nat) = 2 * c + 1" by (simp add: or_one_eq del: One_nat_def)
    with 2 show ?thesis by (simp add: mult.commute)
  qed
qed

lemma bytesUpTo_update:
  assumes "a < n"
  shows "(bytesUpTo f s n a)[a := of_nat (bitsVal f (s + 8 * a) 8)] = bytesUpTo f s n (Suc a)"
  using assms by (auto simp: bytesUpTo_def list_eq_iff_nth_eq nth_list_update)

lemma length_bytesUpTo [simp]: "length (bytesUpTo f s n m) = n"
  by (simp add: bytesUpTo_def)

lemma bitsVal_8: "bitsVal f s 8 = 2 * bitsVal f s 7 + f (s + 7)"
  using bitsVal.simps(2) [of f s 7] by simp

lemma header_step_cursor:
  assumes "h < 32" and "sampleBit pixels k = f h" and "f h \<le> 1"
  shows "header_step pixels k (hdrState f h) = hdrState f (Suc h)"
proof (cases "h mod 8 = 7")
  case True
  then have s: "Suc h mod 8 = 0" "Suc h div 8 = Suc (h div 8)"
    by (simp_all add: mod_Suc div_Suc)
  have hh: "8 * (h div 8) + 7 = h" using True by presburger
  have "h div 8 < 4" using assms(1) by simp
  then have upd: "(bytesUpTo f 0 4 (h div 8))[h div 8 := of_nat (bitsVal f (0 + 8 * (h div 8)) 8)]
      = bytesUpTo f 0 4 (Suc (h div 8))"
    by (rule bytesUpTo_update)
  have acc: "push_bit 1 (bitsVal f (8 * (h div 8)) 7) OR f h = bitsVal f (8 * (h div 8)) 8"
    using assms(3) by (simp only: shift_or_bit bitsVal_8 hh)
  then have acc2: "bitsVal f (8 * (h div 8)) 7 * 2 OR f h = bitsVal f (8 * (h div 8)) 8"
    by (simp add: push_bit_eq_mult)
  have "header_step pixels k (hdrState f h)
      = ((bytesUpTo f 0 4 (h div 8))[h div 8 := of_nat (bitsVal f (8 * (h div 8)) 8)],
         Suc (h div 8), 0, 0)"
    unfolding header_step_def hdrState_def using True by (simp add: assms(2) acc2 del: bitsVal.simps)
  also have "\<dots> = hdrState f (Suc h)"
    using upd by (simp add: hdrState_def s)
  finally show ?thesis .
next
  case False
  then have s: "Suc h mod 8 = Suc (h mod 8)" "Suc h div 8 = h div 8"
    by (simp_all add: mod_Suc div_Suc)
  have lt: "h mod 8 < 7" using False by presburger
  have hh: "8 * (h div 8) + h mod 8 = h" by simp
  have acc: "push_bit 1 (bitsVal f (8 * (h div 8)) (h mod 8)) OR f h
      = bitsVal f (8 * (h div 8)) (Suc (h mod 8))"
    using assms(3) by (simp only: shift_or_bit bitsVal.simps hh)
  then have acc2: "bitsVal f (8 * (h div 8)) (h mod 8) * 2 OR f h
      = bitsVal f (8 * (h div 8)) (Suc (h mod 8))"
    by (simp add: push_bit_eq_mult)
  have "header_step pixels k (hdrState f h)
      = (bytesUpTo f 0 4 (h div 8), h div 8, Suc (h mod 8),
         bitsVal f (8 * (h div 8)) (Suc (h mod 8)))"
    unfolding header_step_def hdrState_def using lt by (simp add: assms(2) acc2 del: bitsVal.simps)
  also have "\<dots> = hdrState f (Suc h)"
    by (simp only: hdrState_def s)
  finally show ?thesis .
qed

lemma header_channels_next:
  assumes "h < 32" and "sampleBit pixels (i + j) = f h" and "f h \<le> 1"
  shows "header_channels pixels i (j # js) (hdrState f h)
       = header_channels pixels i js (hdrState f (Suc h))"
proof -
  have "h div 8 < 4" using assms(1) by simp
  then have "header_channels pixels i (j # js) (hdrState f h)
      = header_channels pixels i js (header_step pixels (i + j) (hdrState f h))"
    by (simp add: hdrState_def)
  then show ?thesis by (simp only: header_step_cursor [where f = f and h = h, OF assms])
qed

lemma header_channels_done:
  assumes "32 \<le> h"
  shows "header_channels pixels i js (hdrState f h) = hdrState f h"
proof (cases js)
  case Nil
  then show ?thesis by simp
next
  case (Cons j js')
  have "4 \<le> h div 8" using assms by simp
  then show ?thesis by (simp add: Cons hdrState_def)
qed

lemma header_channels_cursor:
  assumes "sampleBit pixels i = f h" and "sampleBit pixels (i + 1) = f (h + 1)"
    and "sampleBit pixels (i + 2) = f (h + 2)" and "\<And>c. f c \<le> 1"
  shows "header_channels pixels i [0, 1, 2] (hdrState f h) = hdrState f (if h < 32 then min (h + 3) 32 else h)"
proof -
  consider "32 \<le> h" | "h = 31" | "h = 30" | "h < 30" by linarith
  then show ?thesis
  proof cases
    case 1
    then show ?thesis by (simp only: header_channels_done) simp
  next
    case 2
    have "header_channels pixels i [0, 1, 2] (hdrState f 31)
        = header_channels pixels i [1, 2] (hdrState f (Suc 31))"
      using assms(1,4) 2 by (intro header_channels_next) simp_all
    also have "\<dots> = hdrState f 32"
      by (simp only: header_channels_done) simp
    finally show ?thesis using 2 by simp
  next
    case 3
    have "header_channels pixels i [0, 1, 2] (hdrState f 30)
        = header_channels pixels i [1, 2] (hdrState f (Suc 30))"
      using assms(1,4) 3 by (intro header_channels_next) simp_all
    also have "\<dots> = header_channels pixels i [2] (hdrState f (Suc (Suc 30)))"
      using assms(2,4) 3 by (intro header_channels_next) simp_all
    also have "\<dots> = hdrState f 32"
      by (simp only: header_channels_done) simp
    finally show ?thesis using 3 by simp
  next
    case 4
    have "header_channels pixels i [0, 1, 2] (hdrState f h)
        = header_channels pixels i [1, 2] (hdrState f (Suc h))"
      using assms(1,4) 4 by (intro header_channels_next) simp_all
    also have "\<dots> = header_channels pixels i [2] (hdrState f (Suc (Suc h)))"
      using assms(2,4) 4 by (intro header_channels_next) simp_all
    also have "\<dots> = header_channels pixels i [] (hdrState f (Suc (Suc (Suc h))))"
      using assms(3,4) 4 by (intro header_channels_next) simp_all
    finally show ?thesis using 4 by (simp add: numeral_3_eq_3)
  qed
qed

lemma lsbAt_group:
  assumes "i mod 4 = 0" and "j < 3"
  shows "lsbAt pixels (3 * (i div 4) + j) = sampleBit pixels (i + j)"
proof -
  have "(3 * (i div 4) + j) div 3 = i div 4" "(3 * (i div 4) + j) mod 3 = j"
    using assms(2) by simp_all
  moreover have "4 * (i div 4) = i" using assms(1) by presburger
  ultimately show ?thesis by (simp add: lsbAt_def)
qed

lemma header_loop_cursor:
  assumes "st = hdrState (lsbAt pixels) h" and "h = min (3 * (i div 4)) 32"
    and "i mod 4 = 0" and "length pixels mod 4 = 0" and "i \<le> length pixels"
  shows "header_loop pixels i st = hdrState (lsbAt pixels) (min (3 * (length pixels div 4)) 32)"
  using assms
proof (induction pixels i st arbitrary: h rule: header_loop.induct)
  case (1 pixels i headerBytes byteIndex bitIndex currentByte)
  define f where "f = lsbAt pixels"
  have bi: "byteIndex = h div 8"
    using "1.prems"(1) by (simp add: hdrState_def)
  show ?case
  proof (cases "h < 32 \<and> i < length pixels")
    case False
    then have "header_loop pixels i (headerBytes, byteIndex, bitIndex, currentByte)
        = hdrState f h"
      using bi "1.prems"(1) by (subst header_loop.simps) (auto simp: f_def)
    moreover have "h = min (3 * (length pixels div 4)) 32"
    proof (cases "h < 32")
      case True
      with False "1.prems"(5) have "i = length pixels" by simp
      with "1.prems"(2) show ?thesis by simp
    next
      case False
      with "1.prems"(2) have "h = 32" "32 \<le> 3 * (i div 4)" by simp_all
      moreover have "i div 4 \<le> length pixels div 4"
        using "1.prems"(5) by (rule div_le_mono)
      ultimately show ?thesis by simp
    qed
    ultimately show ?thesis by (simp add: f_def)
  next
    case True
    then have h3: "h = 3 * (i div 4)" using "1.prems"(2) by (simp add: min_def split: if_splits)
    from True have hlt: "h < 32" and ilt: "i < length pixels" by simp_all
    from hlt have "h div 8 < 4" by simp
    then have b4: "byteIndex < 4" by (simp only: bi)
    have le: "i + 4 \<le> length pixels"
      using True "1.prems"(3,4) by presburger
    have ch: "header_channels pixels i [0, 1, 2] (headerBytes, byteIndex, bitIndex, currentByte)
        = hdrState f (min (h + 3) 32)"
    proof -
      have "header_channels pixels i [0, 1, 2] (hdrState f h)
          = hdrState f (if h < 32 then min (h + 3) 32 else h)"
        unfolding f_def h3
        using lsbAt_group [OF "1.prems"(3), of 0 pixels] lsbAt_group [OF "1.prems"(3), of 1 pixels]
          lsbAt_group [OF "1.prems"(3), of 2 pixels]
        by (intro header_channels_cursor lsbAt_le1) simp_all
      with True "1.prems"(1) show ?thesis by (simp only: f_def if_True)
    qed
    have "header_loop pixels i (headerBytes, byteIndex, bitIndex, currentByte)
        = header_loop pixels (i + 4)
            (header_channels pixels i [0, 1, 2] (headerBytes, byteIndex, bitIndex, currentByte))"
      using b4 ilt by (subst header_loop.simps) (simp del: header_channels.simps One_nat_def)
    also have "\<dots> = hdrState (lsbAt pixels) (min (3 * (length pixels div 4)) 32)"
    proof (rule "1.IH")
      show "byteIndex < 4 \<and> i < length pixels" using b4 ilt by simp
      show "header_channels pixels i [0, 1, 2] (headerBytes, byteIndex, bitIndex, currentByte)
          = hdrState (lsbAt pixels) (min (h + 3) 32)"
        using ch by (simp only: f_def)
      show "min (h + 3) 32 = min (3 * ((i + 4) div 4)) 32" using h3 by simp
      show "(i + 4) mod 4 = 0" using "1.prems"(3) by simp
      show "length pixels mod 4 = 0" by (rule "1.prems"(4))
      show "i + 4 \<le> length pixels" by (rule le)
    qed
    finally show ?thesis .
  qed
qed

definition revState :: "(nat \<Rightarrow> nat) \<Rightarrow> nat \<Rightarrow> nat \<Rightarrow> byte list \<times> nat \<times> nat \<times> nat \<times> bool \<times> nat" where
  "revState f L c =
     (if c < 32 then (replicate L 0, 0, 0, 0, True, c)
      else (bytesUpTo f 32 L ((c - 32) div 8), (c - 32) div 8, (c - 32) mod 8,
            bitsVal f (32 + 8 * ((c - 32) div 8)) ((c - 32) mod 8), False, 32))"

lemma bytesUpTo_0: "bytesUpTo f s n 0 = replicate n 0"
  by (simp add: bytesUpTo_def map_replicate_const)

lemma data_step_cursor:
  assumes "d < 8 * L" and "b = f (32 + d)" and "b \<le> 1"
  shows "data_step b (bytesUpTo f 32 L (d div 8), d div 8, d mod 8,
            bitsVal f (32 + 8 * (d div 8)) (d mod 8), False, 32)
       = (bytesUpTo f 32 L (Suc d div 8), Suc d div 8, Suc d mod 8,
            bitsVal f (32 + 8 * (Suc d div 8)) (Suc d mod 8), False, 32)"
proof (cases "d mod 8 = 7")
  case True
  then have s: "Suc d mod 8 = 0" "Suc d div 8 = Suc (d div 8)"
    by (simp_all add: mod_Suc div_Suc)
  have hh: "32 + 8 * (d div 8) + 7 = 32 + d" using True by presburger
  have "d div 8 < L" using assms(1) by (simp add: div_less_iff_less_mult)
  then have upd: "(bytesUpTo f 32 L (d div 8))[d div 8 := of_nat (bitsVal f (32 + 8 * (d div 8)) 8)]
      = bytesUpTo f 32 L (Suc (d div 8))"
    by (rule bytesUpTo_update)
  have acc: "push_bit 1 (bitsVal f (32 + 8 * (d div 8)) 7) OR b = bitsVal f (32 + 8 * (d div 8)) 8"
    using assms(3) by (simp only: shift_or_bit bitsVal_8 hh assms(2))
  then have acc2: "bitsVal f (32 + 8 * (d div 8)) 7 * 2 OR b = bitsVal f (32 + 8 * (d div 8)) 8"
    by (simp add: push_bit_eq_mult)
  show ?thesis
    unfolding data_step_def using True upd by (simp add: acc2 s del: bitsVal.simps(2))
next
  case False
  then have s: "Suc d mod 8 = Suc (d mod 8)" "Suc d div 8 = d div 8"
    by (simp_all add: mod_Suc div_Suc)
  have lt: "d mod 8 < 7" using False by presburger
  have hh: "32 + 8 * (d div 8) + d mod 8 = 32 + d" by simp
  have acc: "push_bit 1 (bitsVal f (32 + 8 * (d div 8)) (d mod 8)) OR b
      = bitsVal f (32 + 8 * (d div 8)) (Suc (d mod 8))"
    using assms(3) by (simp only: shift_or_bit bitsVal.simps hh assms(2))
  then have acc2: "bitsVal f (32 + 8 * (d div 8)) (d mod 8) * 2 OR b
      = bitsVal f (32 + 8 * (d div 8)) (Suc (d mod 8))"
    by (simp add: push_bit_eq_mult)
  show ?thesis
    unfolding data_step_def using lt by (simp add: acc2 s del: bitsVal.simps)
qed

lemma reveal_channels_next:
  assumes "c < 32 + 8 * L" and "sampleBit pixels (i + j) = f c" and "f c \<le> 1"
  shows "reveal_channels pixels L i (j # js) (revState f L c)
       = reveal_channels pixels L i js (revState f L (Suc c))"
proof -
  consider "c < 31" | "c = 31" | "32 \<le> c" by linarith
  then show ?thesis
  proof cases
    case 1
    then show ?thesis by (simp add: revState_def)
  next
    case 2
    then show ?thesis by (simp add: revState_def bytesUpTo_0)
  next
    case 3
    define d where "d = c - 32"
    have c: "c = 32 + d" using 3 by (simp add: d_def)
    have d: "d < 8 * L" using assms(1) c by simp
    then have dl: "\<not> L \<le> d div 8" by (simp add: div_less_iff_less_mult not_le)
    have step: "data_step (f (32 + d)) (bytesUpTo f 32 L (d div 8), d div 8, d mod 8,
            bitsVal f (32 + 8 * (d div 8)) (d mod 8), False, 32)
       = (bytesUpTo f 32 L (Suc d div 8), Suc d div 8, Suc d mod 8,
            bitsVal f (32 + 8 * (Suc d div 8)) (Suc d mod 8), False, 32)"
      using d assms(3) by (intro data_step_cursor) (simp_all add: c)
    show ?thesis
      using dl assms(2) by (simp add: revState_def c step del: bitsVal.simps)
  qed
qed

lemma reveal_channels_done:
  assumes "32 + 8 * L \<le> c"
  shows "reveal_channels pixels L i js (revState f L c) = revState f L c"
proof (cases js)
  case Nil
  then show ?thesis by simp
next
  case (Cons j js')
  have "L \<le> (c - 32) div 8" using assms by (simp add: less_eq_div_iff_mult_less_eq)
  moreover have "\<not> c < 32" using assms by simp
  ultimately show ?thesis by (simp add: Cons revState_def)
qed

lemma reveal_channels_cursor:
  assumes "sampleBit pixels i = f c" and "sampleBit pixels (i + 1) = f (c + 1)"
    and "sampleBit pixels (i + 2) = f (c + 2)" and "\<And>c. f c \<le> 1" and "c \<le> 32 + 8 * L"
  shows "reveal_channels pixels L i [0, 1, 2] (revState f L c) = revState f L (min (c + 3) (32 + 8 * L))"
proof -
  define T where "T = 32 + 8 * L"
  consider "c = T" | "c + 1 = T" | "c + 2 = T" | "c + 2 < T"
    using assms(5) unfolding T_def by linarith
  then show ?thesis
  proof cases
    case 1
    then have "min (c + 3) (32 + 8 * L) = c" by (simp add: T_def)
    moreover have "reveal_channels pixels L i [0, 1, 2] (revState f L c) = revState f L c"
      using 1 by (intro reveal_channels_done) (simp add: T_def)
    ultimately show ?thesis by simp
  next
    case 2
    then have m: "min (c + 3) (32 + 8 * L) = Suc c" by (simp add: T_def)
    have "reveal_channels pixels L i [0, 1, 2] (revState f L c)
        = reveal_channels pixels L i [1, 2] (revState f L (Suc c))"
      using assms(1,4) 2 by (intro reveal_channels_next) (simp_all add: T_def)
    also have "\<dots> = revState f L (Suc c)"
      using 2 by (intro reveal_channels_done) (simp add: T_def)
    finally show ?thesis by (simp only: m)
  next
    case 3
    then have m: "min (c + 3) (32 + 8 * L) = Suc (Suc c)" by (simp add: T_def)
    have "reveal_channels pixels L i [0, 1, 2] (revState f L c)
        = reveal_channels pixels L i [1, 2] (revState f L (Suc c))"
      using assms(1,4) 3 by (intro reveal_channels_next) (simp_all add: T_def)
    also have "\<dots> = reveal_channels pixels L i [2] (revState f L (Suc (Suc c)))"
      using assms(2,4) 3 by (intro reveal_channels_next) (simp_all add: T_def)
    also have "\<dots> = revState f L (Suc (Suc c))"
      using 3 by (intro reveal_channels_done) (simp add: T_def)
    finally show ?thesis by (simp only: m)
  next
    case 4
    then have m: "min (c + 3) (32 + 8 * L) = Suc (Suc (Suc c))" by (simp add: T_def)
    have "reveal_channels pixels L i [0, 1, 2] (revState f L c)
        = reveal_channels pixels L i [1, 2] (revState f L (Suc c))"
      using assms(1,4) 4 by (intro reveal_channels_next) (simp_all add: T_def)
    also have "\<dots> = reveal_channels pixels L i [2] (revState f L (Suc (Suc c)))"
      using assms(2,4) 4 by (intro reveal_channels_next) (simp_all add: T_def)
    also have "\<dots> = reveal_channels pixels L i [] (revState f L (Suc (Suc (Suc c))))"
      using assms(3,4) 4 by (intro reveal_channels_next) (simp_all add: T_def)
    finally show ?thesis by (simp add: m)
  qed
qed

lemma revState_break:
  "(case revState f L c of
      (outputBuffer, outputIndex, bitIndex, currentByte, readingHeader, headerBitsRead) \<Rightarrow>
        if \<not> readingHeader \<and> outputIndex \<ge> L
        then (outputBuffer, outputIndex, bitIndex, currentByte, readingHeader, headerBitsRead)
        else g (outputBuffer, outputIndex, bitIndex, currentByte, readingHeader, headerBitsRead))
   = (if 32 + 8 * L \<le> c then revState f L c else g (revState f L c))"
proof (cases "c < 32")
  case True
  then show ?thesis by (simp add: revState_def)
next
  case False
  then have "(L \<le> (c - 32) div 8) = (32 + 8 * L \<le> c)"
    by (auto simp: less_eq_div_iff_mult_less_eq)
  with False show ?thesis by (simp add: revState_def)
qed

lemma reveal_loop_cursor:
  assumes "c = 3 * (i div 4)" and "c < 32 + 8 * L"
    and "i mod 4 = 0" and "length pixels mod 4 = 0" and "i \<le> length pixels"
  shows "reveal_loop pixels L i (revState (lsbAt pixels) L c)
       = revState (lsbAt pixels) L (min (3 * (length pixels div 4)) (32 + 8 * L))"
  using assms
proof (induction "length pixels - i" arbitrary: i c rule: less_induct)
  case less
  define f where "f = lsbAt pixels"
  show ?case
  proof (cases "i < length pixels")
    case False
    with less.prems have "i = length pixels" by simp
    with less.prems have "min (3 * (length pixels div 4)) (32 + 8 * L) = c" by simp
    moreover have "reveal_loop pixels L i (revState f L c) = revState f L c"
      using False by (subst reveal_loop.simps) simp
    ultimately show ?thesis by (simp add: f_def)
  next
    case True
    have le: "i + 4 \<le> length pixels"
      using True less.prems(3,4) by presburger
    define c' where "c' = min (c + 3) (32 + 8 * L)"
    have ch: "reveal_channels pixels L i [0, 1, 2] (revState f L c) = revState f L c'"
      unfolding f_def c'_def less.prems(1)
      using lsbAt_group [OF less.prems(3), of 0 pixels] lsbAt_group [OF less.prems(3), of 1 pixels]
        lsbAt_group [OF less.prems(3), of 2 pixels] less.prems(1,2)
      by (intro reveal_channels_cursor lsbAt_le1) simp_all
    have "reveal_loop pixels L i (revState f L c)
        = (case reveal_channels pixels L i [0, 1, 2] (revState f L c) of
            (outputBuffer, outputIndex, bitIndex, currentByte, readingHeader, headerBitsRead) \<Rightarrow>
              if \<not> readingHeader \<and> outputIndex \<ge> L
              then (outputBuffer, outputIndex, bitIndex, currentByte, readingHeader, headerBitsRead)
              else reveal_loop pixels L (i + 4)
                (outputBuffer, outputIndex, bitIndex, currentByte, readingHeader, headerBitsRead))"
      using True by (subst reveal_loop.simps) (simp del: reveal_channels.simps One_nat_def)
    also have "\<dots> = (if 32 + 8 * L \<le> c' then revState f L c'
                      else reveal_loop pixels L (i + 4) (revState f L c'))"
      by (simp only: ch revState_break)
    finally have step: "reveal_loop pixels L i (revState f L c)
        = (if 32 + 8 * L \<le> c' then revState f L c'
           else reveal_loop pixels L (i + 4) (revState f L c'))" .
    have bound: "c + 3 \<le> 3 * (length pixels div 4)"
    proof -
      have "(i + 4) div 4 \<le> length pixels div 4" using le by (rule div_le_mono)
      then show ?thesis using less.prems(1) by simp
    qed
    show ?thesis
    proof (cases "32 + 8 * L \<le> c'")
      case True
      then have "c' = 32 + 8 * L" by (simp add: c'_def)
      moreover from True have "32 + 8 * L \<le> 3 * (length pixels div 4)"
        using bound by (simp add: c'_def)
      ultimately have "min (3 * (length pixels div 4)) (32 + 8 * L) = c'" by simp
      with True step show ?thesis by (simp add: f_def)
    next
      case False
      then have c'eq: "c' = c + 3" by (simp add: c'_def min_def split: if_splits)
      have "reveal_loop pixels L (i + 4) (revState (lsbAt pixels) L c')
          = revState (lsbAt pixels) L (min (3 * (length pixels div 4)) (32 + 8 * L))"
      proof (rule less.hyps)
        show "length pixels - (i + 4) < length pixels - i" using True by simp
        show "c' = 3 * ((i + 4) div 4)" using less.prems(1) c'eq by simp
        show "c' < 32 + 8 * L" using False by simp
        show "(i + 4) mod 4 = 0" using less.prems(3) by simp
        show "length pixels mod 4 = 0" by (rule less.prems(4))
        show "i + 4 \<le> length pixels" by (rule le)
      qed
      with False step show ?thesis by (simp add: f_def)
    qed
  qed
qed

lemma unat_byte_of_nat: "unat (of_nat x :: byte) = x mod 256"
  by (simp add: unat_of_nat)

lemma be32_arith:
  fixes v :: nat
  assumes "v < 2 ^ 32"
  shows "(v div 2 ^ 24) mod 256 * 2 ^ 24 + (v div 2 ^ 16) mod 256 * 2 ^ 16
       + (v div 2 ^ 8) mod 256 * 2 ^ 8 + v mod 256 = v"
proof -
  define A where "A = v div 2 ^ 24"
  define B where "B = v div 2 ^ 16"
  define C where "C = v div 2 ^ 8"
  have a: "A mod 256 = A" using assms by (simp add: A_def div_less_iff_less_mult)
  have b: "B = A * 256 + B mod 256"
    using div_mult2_eq [of v "2 ^ 16" 256] by (simp add: A_def B_def)
  have c: "C = B * 256 + C mod 256"
    using div_mult2_eq [of v "2 ^ 8" 256] by (simp add: B_def C_def)
  have d: "v = C * 256 + v mod 256"
    by (simp add: C_def)
  have "A * 2 ^ 24 + B mod 256 * 2 ^ 16 + C mod 256 * 2 ^ 8 + v mod 256 = v"
    using b c d by simp
  then show ?thesis unfolding A_def B_def C_def by (simp only: a [unfolded A_def])
qed

lemma getUint32_setUint32: "getUint32_be (setUint32_be n) = n mod 2 ^ 32"
proof -
  define v where "v = n mod 2 ^ 32"
  have "v < 2 ^ 32" by (simp add: v_def)
  then have "(v div 2 ^ 24) mod 256 * 2 ^ 24 + (v div 2 ^ 16) mod 256 * 2 ^ 16
       + (v div 2 ^ 8) mod 256 * 2 ^ 8 + v mod 256 = v"
    by (rule be32_arith)
  moreover have "getUint32_be (setUint32_be n)
      = (v div 2 ^ 24) mod 256 * 2 ^ 24 + (v div 2 ^ 16) mod 256 * 2 ^ 16
       + (v div 2 ^ 8) mod 256 * 2 ^ 8 + v mod 256"
    unfolding getUint32_be_def setUint32_be_def Let_def v_def [symmetric]
    by (simp only: nth_Cons_0 nth_Cons_Suc unat_byte_of_nat One_nat_def numeral_2_eq_2 numeral_3_eq_3)
  ultimately show ?thesis by (simp only: v_def)
qed

lemma length_setUint32 [simp]: "length (setUint32_be n) = 4"
  by (simp add: setUint32_be_def Let_def)

lemma bitsVal_prefix:
  assumes "n \<le> 8" and "\<And>j. j < n \<Longrightarrow> f (8 * q + j) = unat (dataBit fullData (8 * q + j))"
  shows "bitsVal f (8 * q) n = unat (fullData ! q) div 2 ^ (8 - n)"
  using assms
proof (induction n)
  case 0
  have "unat (fullData ! q) < 2 ^ 8" using unsigned_less [of "fullData ! q"] by simp
  then show ?case by simp
next
  case (Suc n)
  define x where "x = unat (fullData ! q)"
  have n: "n < 8" using Suc.prems(1) by simp
  have ih: "bitsVal f (8 * q) n = x div 2 ^ (8 - n)"
    unfolding x_def using Suc.prems by (intro Suc.IH) simp_all
  have "(8 * q + n) mod 8 = n" "(8 * q + n) div 8 = q" using n by simp_all
  then have "dataBit fullData (8 * q + n) = drop_bit (7 - n) (fullData ! q) AND 1"
    by (simp add: dataBit_def)
  then have fb: "f (8 * q + n) = (x div 2 ^ (7 - n)) mod 2"
    using Suc.prems(2) [of n] by (simp add: unat_bit_of x_def)
  have e: "8 - n = Suc (7 - n)" using n by linarith
  have p: "(2::nat) ^ (8 - n) = 2 ^ (7 - n) * 2"
    by (simp only: e power_Suc2)
  have "x div 2 ^ (8 - n) = (x div 2 ^ (7 - n)) div 2"
    by (simp only: p div_mult2_eq)
  then have "2 * bitsVal f (8 * q) n + f (8 * q + n) = x div 2 ^ (7 - n)"
    by (simp add: ih fb)
  moreover have "8 - Suc n = 7 - n" by simp
  ultimately show ?case by (simp add: x_def)
qed

lemma bitsVal_byte:
  assumes "\<And>j. j < 8 \<Longrightarrow> f (8 * q + j) = unat (dataBit fullData (8 * q + j))"
  shows "(of_nat (bitsVal f (8 * q) 8) :: byte) = fullData ! q"
proof -
  have "bitsVal f (8 * q) 8 = unat (fullData ! q) div 2 ^ (8 - 8)"
    using assms by (intro bitsVal_prefix) simp_all
  then show ?thesis by simp
qed

lemma hide_loop_length:
  "length (fst (hide_loop fullData i (pixels, d, b))) = length pixels"
proof (induction fullData i "(pixels, d, b)" arbitrary: pixels d b rule: hide_loop.induct)
  case (1 fullData i pixels d b)
  show ?case
  proof (cases "i < length pixels \<and> d < length fullData")
    case False
    then show ?thesis by (subst hide_loop.simps) auto
  next
    case True
    obtain p' d' b' where ch: "hide_channels fullData i [0, 1, 2] (pixels, d, b) = (p', d', b')"
      by (cases "hide_channels fullData i [0, 1, 2] (pixels, d, b)")
    have "length (fst (hide_channels fullData i [0, 1, 2] (pixels, d, b))) = length pixels"
      by (simp only: length_hide_channels fst_conv)
    then have lp: "length p' = length pixels" by (simp only: ch fst_conv)
    have "hide_loop fullData i (pixels, d, b)
        = hide_loop fullData (i + 4) (hide_channels fullData i [0, 1, 2] (pixels, d, b))"
      using True by (subst hide_loop.simps) (simp del: hide_channels.simps One_nat_def)
    then have "hide_loop fullData i (pixels, d, b) = hide_loop fullData (i + 4) (p', d', b')"
      by (simp only: ch)
    moreover have "length (fst (hide_loop fullData (i + 4) (p', d', b'))) = length p'"
      using True by (intro "1.hyps" [OF _ _ ch]) simp_all
    ultimately show ?thesis by (simp only: lp)
  qed
qed

lemma dataBit_and1: "dataBit fullData c AND 1 = dataBit fullData c"
  by (simp add: dataBit_def and.assoc)

lemma setLSB_and1: "setLSB p (dataBit fullData c) AND 1 = dataBit fullData c"
proof -
  have "((p AND NOT 1) OR (drop_bit (7 - c mod 8) (fullData ! (c div 8)) AND 1)) AND 1
      = drop_bit (7 - c mod 8) (fullData ! (c div 8)) AND 1"
    by (rule bit_word_eqI) (auto simp: bit_simps)
  then show ?thesis by (simp only: setLSB_def dataBit_def)
qed

lemma setLSB_upper: "setLSB p (dataBit fullData c) AND NOT 1 = p AND NOT 1"
proof -
  have "((p AND NOT 1) OR (drop_bit (7 - c mod 8) (fullData ! (c div 8)) AND 1)) AND NOT 1
      = p AND NOT 1"
    by (rule bit_word_eqI) (auto simp: bit_simps)
  then show ?thesis by (simp only: setLSB_def dataBit_def)
qed

lemma hide_loop_result:
  assumes "k < length pixels"
  shows "fst (hide_loop fullData 0 (pixels, 0, 0)) ! k =
     (if k mod 4 < 3 \<and> chanPos k < 8 * length fullData
      then setLSB (pixels ! k) (dataBit fullData (chanPos k)) else pixels ! k)"
  using hide_loop_nth [of 0 0 0 fullData k pixels] assms by simp

lemma hide_stream:
  assumes "8 * length fullData \<le> 3 * (length pixels div 4)" and "c < 8 * length fullData"
  shows "lsbAt (fst (hide_loop fullData 0 (pixels, 0, 0))) c = unat (dataBit fullData c)"
proof -
  define k where "k = 4 * (c div 3) + c mod 3"
  have "c div 3 < length pixels div 4" using assms by linarith
  then have "4 * (c div 3) + 4 \<le> 4 * (length pixels div 4)" by simp
  then have kl: "k < length pixels" unfolding k_def by (simp add: less_le_trans)
  have "c mod 3 < 3" by simp
  then have r4: "c mod 3 < 4" by linarith
  then have km: "k mod 4 = c mod 3" "k div 4 = c div 3" unfolding k_def by simp_all
  then have cp: "chanPos k = c" by (simp add: chanPos_def)
  have "fst (hide_loop fullData 0 (pixels, 0, 0)) ! k
      = setLSB (pixels ! k) (dataBit fullData c)"
    using hide_loop_result [OF kl, of fullData] assms(2) km(1) cp by simp
  then show ?thesis
    using kl by (simp add: lsbAt_def k_def [symmetric] sampleBit_def hide_loop_length setLSB_and1)
qed

lemma reveal_eq:
  assumes "length pixels mod 4 = 0"
  shows "reveal pixels =
     (let f = lsbAt pixels; m = length pixels div 4;
          L = getUint32_be (bytesUpTo f 0 4 (min (3 * m) 32 div 8))
      in if L = 0 \<or> L * 8 > length pixels * 3 then Inl CorruptionError
         else Inr (fst (revState f L (min (3 * m) (32 + 8 * L)))))"
proof -
  define f where "f = lsbAt pixels"
  have h0: "(replicate 4 0, 0, 0, 0) = hdrState f 0"
    by (simp add: hdrState_def bytesUpTo_0)
  have hl: "header_loop pixels 0 (replicate 4 0, 0, 0, 0)
      = hdrState f (min (3 * (length pixels div 4)) 32)"
    unfolding f_def using assms by (intro header_loop_cursor) (simp_all add: h0 f_def)
  have r0: "(replicate L 0, 0, 0, 0, True, 0) = revState f L 0" for L
    by (simp add: revState_def)
  have rl: "reveal_loop pixels L 0 (replicate L 0, 0, 0, 0, True, 0)
      = revState f L (min (3 * (length pixels div 4)) (32 + 8 * L))" for L
    unfolding r0 f_def using assms by (intro reveal_loop_cursor) simp_all
  show ?thesis
    by (simp add: reveal_def hl rl Let_def hdrState_def f_def [symmetric])
qed

lemma hide_Inr:
  "hide img secretData = Inr out \<longleftrightarrow>
     hasCapacity img (length secretData) \<and>
     out = fst (hide_loop (setUint32_be (length secretData) @ secretData) 0 (pixelData img, 0, 0))"
  by (auto simp: hide_def hide_from_def Let_def)

lemma hide_eq:
  "hide img secretData =
     (if \<not> hasCapacity img (length secretData) then Inl CapacityError
      else Inr (fst (hide_loop (setUint32_be (length secretData) @ secretData) 0
                       (pixelData img, 0, 0))))"
  by (simp add: hide_def hide_from_def Let_def)

text \<open>A payload that passes the capacity test fits into the pixels, as long as the
  arithmetic of the test is exact or the payload is short.\<close>

lemma hasCapacity_bits_exact:
  assumes "hasCapacity img n" and "wellFormed img"
    and "width img * height img * 3 \<le> 2 ^ 53"
  shows "32 + 8 * n \<le> 3 * (length (pixelData img) div 4)"
proof -
  have "int n \<le> (int (width img) * int (height img) * 3 - 32) div 8"
    using assms(1) by (simp add: hasCapacity_iff getMaxCapacity_exact [OF assms(3)])
  then have "8 * int n \<le> int (width img) * int (height img) * 3 - 32" by linarith
  then have "32 + 8 * int n \<le> 3 * int (width img * height img)" by simp
  then have "32 + 8 * n \<le> 3 * (width img * height img)" by linarith
  moreover have "length (pixelData img) div 4 = width img * height img"
    using assms(2) by (simp add: wellFormed_def)
  ultimately show ?thesis by simp
qed

lemma hasCapacity_bits:
  assumes "hasCapacity img n" and "wellFormed img" and "n < 2 ^ 32"
  shows "32 + 8 * n \<le> 3 * (length (pixelData img) div 4)"
proof (cases "width img * height img * 3 \<le> 2 ^ 53")
  case True
  with assms(1,2) show ?thesis by (rule hasCapacity_bits_exact)
next
  case False
  then have "9007199254740992 < width img * height img * 3" by simp
  moreover have "n < 4294967296" using assms(3) by simp
  ultimately have "32 + 8 * n \<le> 3 * (width img * height img)" by linarith
  moreover have "length (pixelData img) div 4 = width img * height img"
    using assms(2) by (simp add: wellFormed_def)
  ultimately show ?thesis by simp
qed

lemma bytesUpTo_full:
  "bytesUpTo f s n n = map (\<lambda>q. of_nat (bitsVal f (s + 8 * q) 8)) [0 ..< n]"
  by (simp add: bytesUpTo_def)

lemma stream_bytes:
  assumes "\<And>c. c < 8 * length fullData \<Longrightarrow> f c = unat (dataBit fullData c)"
    and "a + n \<le> length fullData"
  shows "bytesUpTo f (8 * a) n n = take n (drop a fullData)"
proof -
  have "(of_nat (bitsVal f (8 * a + 8 * q) 8) :: byte) = fullData ! (a + q)" if "q < n" for q
  proof -
    have "Suc (a + q) \<le> length fullData" using \<open>q < n\<close> assms(2) by linarith
    then have "8 * Suc (a + q) \<le> 8 * length fullData" by (rule mult_le_mono2)
    then have "8 * (a + q) + j < 8 * length fullData" if "j < 8" for j
      using that by simp
    then have "(of_nat (bitsVal f (8 * (a + q)) 8) :: byte) = fullData ! (a + q)"
      by (intro bitsVal_byte assms(1)) simp
    then show ?thesis by (simp add: algebra_simps)
  qed
  then show ?thesis
    using assms(2) by (auto simp: bytesUpTo_full list_eq_iff_nth_eq)
qed

subsection \<open>Concrete images\<close>

definition cover4x4 :: image where
  "cover4x4 = \<lparr>width = 4, height = 4, pixelData =
     [255, 255, 255, 255,  255, 255, 255, 255,  255, 255, 255, 255,  255, 255, 255, 255,
      255, 255, 255, 255,  255, 255, 255, 255,  255, 255, 255, 255,  255, 255, 255, 255,
      255, 255, 255, 255,  255, 255, 255, 255,  255, 255, 255, 255,  255, 255, 255, 255,
      255, 255, 255, 255,  255, 255, 255, 255,  255, 255, 255, 255,  255, 255, 255, 255]\<rparr>"

definition stego4x4 :: "byte list" where
  "stego4x4 =
     [254, 254, 254, 255,  254, 254, 254, 255,  254, 254, 254, 255,  254, 254, 254, 255,
      254, 254, 254, 255,  254, 254, 254, 255,  254, 254, 254, 255,  254, 254, 254, 255,
      254, 254, 254, 255,  254, 254, 254, 255,  255, 254, 255, 255,  254, 255, 254, 255,
      254, 255, 254, 255,  255, 254, 254, 255,  255, 255, 255, 255,  255, 254, 254, 255]"

definition black4x4 :: image where
  "black4x4 = \<lparr>width = 4, height = 4, pixelData =
     [0, 0, 0, 0,  0, 0, 0, 0,  0, 0, 0, 0,  0, 0, 0, 0,
      0, 0, 0, 0,  0, 0, 0, 0,  0, 0, 0, 0,  0, 0, 0, 0,
      0, 0, 0, 0,  0, 0, 0, 0,  0, 0, 0, 0,  0, 0, 0, 0,
      0, 0, 0, 0,  0, 0, 0, 0,  0, 0, 0, 0,  0, 0, 0, 0]\<rparr>"

definition forged4x4 :: "byte list" where
  "forged4x4 =
     [0, 0, 0, 0,  0, 0, 0, 0,  0, 0, 0, 0,  0, 0, 0, 0,
      0, 0, 0, 0,  0, 0, 0, 0,  0, 0, 0, 0,  0, 0, 0, 0,
      0, 0, 0, 0,  0, 0, 0, 0,  1, 1, 1, 0,  1, 1, 1, 0,
      1, 1, 1, 0,  1, 1, 1, 0,  1, 1, 1, 0,  1, 1, 1, 0]"

lemmas eval_hide = hide_eq hasCapacity_4x4 setUint32_be_def hide_loop.simps hide_step_def Let_def
lemmas eval_reveal = reveal_def header_loop.simps reveal_loop.simps header_step_def data_step_def
  sampleBit_def getUint32_be_def Let_def

lemma replicate_4: "replicate 4 x = [x, x, x, x]"
  by (simp add: numeral_eq_Suc)

lemma replicate_3: "replicate 3 x = [x, x, x]"
  by (simp add: numeral_eq_Suc)

lemma replicate_2: "replicate 2 x = [x, x]"
  by (simp add: numeral_eq_Suc)

lemma hide_cover4x4: "hide cover4x4 [0xA5, 0x3C] = Inr stego4x4"
  by (simp add: cover4x4_def stego4x4_def eval_hide)

lemma reveal_stego4x4: "reveal stego4x4 = Inr [0xA5, 0x3C]"
  by (simp add: stego4x4_def eval_reveal replicate_4 replicate_2)

lemma hide_black4x4: "hide black4x4 [] = Inr (pixelData black4x4)"
  by (simp add: black4x4_def eval_hide)

lemma reveal_black4x4: "reveal (pixelData black4x4) = Inl CorruptionError"
  by (simp add: black4x4_def eval_reveal replicate_4)

lemma reveal_forged4x4: "reveal forged4x4 = Inr [255, 255, 0]"
  by (simp add: forged4x4_def eval_reveal replicate_4 replicate_3)


definition stego4x4_one :: "byte list" where
  "stego4x4_one =
     [254, 254, 254, 255,  254, 254, 254, 255,  254, 254, 254, 255,  254, 254, 254, 255,
      254, 254, 254, 255,  254, 254, 254, 255,  254, 254, 254, 255,  254, 254, 254, 255,
      254, 254, 254, 255,  254, 254, 254, 255,  254, 255, 255, 255,  254, 255, 254, 255,
      254, 255, 254, 255,  255, 255, 255, 255,  255, 255, 255, 255,  255, 255, 255, 255]"

lemma hide_cover4x4_one: "hide cover4x4 [0xA5] = Inr stego4x4_one"
  by (simp add: cover4x4_def stego4x4_one_def eval_hide)

section \<open>Steganography claims\<close>

text \<open>
  Claim C10. For every successful embed of a payload of \<open>L\<close> bytes, the output buffer has
  the length of the input buffer; every output sample agrees with the input sample in all
  bits but the least significant one; every alpha sample (buffer index \<open>k\<close> with
  \<open>k mod 4 = 3\<close>) is unchanged; and every R, G or B sample whose position
  \<open>3 * (k div 4) + k mod 4\<close> in the raster-order bit stream is at or beyond
  \<open>32 + 8 * L\<close> is unchanged.
\<close>

theorem embed_touches_only_lsb:
  assumes "hide img secretData = Inr out" and "k < length (pixelData img)"
  shows "length out = length (pixelData img)
       \<and> out ! k AND NOT 1 = pixelData img ! k AND NOT 1
       \<and> (k mod 4 = 3 \<longrightarrow> out ! k = pixelData img ! k)
       \<and> (k mod 4 < 3 \<and> 32 + 8 * length secretData \<le> 3 * (k div 4) + k mod 4
            \<longrightarrow> out ! k = pixelData img ! k)"
proof -
  define fullData where "fullData = setUint32_be (length secretData) @ secretData"
  define pixels where "pixels = pixelData img"
  from assms(1) have out: "out = fst (hide_loop fullData 0 (pixels, 0, 0))"
    by (simp add: hide_Inr fullData_def pixels_def)
  have len: "8 * length fullData = 32 + 8 * length secretData"
    by (simp add: fullData_def)
  have k: "k < length pixels" using assms(2) by (simp add: pixels_def)
  have nth: "out ! k = (if k mod 4 < 3 \<and> chanPos k < 32 + 8 * length secretData
                        then setLSB (pixels ! k) (dataBit fullData (chanPos k)) else pixels ! k)"
    unfolding out using hide_loop_result [OF k, of fullData] by (simp only: len)
  have "length out = length pixels"
    by (simp add: out hide_loop_length)
  moreover have "out ! k AND NOT 1 = pixels ! k AND NOT 1"
    using setLSB_upper [of "pixels ! k" fullData "chanPos k"] by (simp add: nth)
  moreover have "out ! k = pixels ! k" if "k mod 4 = 3"
    using that by (simp add: nth)
  moreover have "out ! k = pixels ! k"
    if "k mod 4 < 3 \<and> 32 + 8 * length secretData \<le> 3 * (k div 4) + k mod 4"
    using that by (simp add: nth chanPos_def)
  ultimately show ?thesis by (simp add: pixels_def)
qed

theorem embed_touches_only_lsb_witness:
  "hide cover4x4 [0xA5] = Inr stego4x4_one
   \<and> length stego4x4_one = length (pixelData cover4x4)
   \<and> stego4x4_one ! 0 AND NOT 1 = pixelData cover4x4 ! 0 AND NOT 1
   \<and> (3::nat) mod 4 = 3 \<and> stego4x4_one ! 3 = pixelData cover4x4 ! 3
   \<and> (56::nat) mod 4 < 3 \<and> 32 + 8 * length [0xA5 :: byte] \<le> 3 * (56 div 4) + 56 mod 4
   \<and> stego4x4_one ! 56 = pixelData cover4x4 ! 56"
proof -
  have h: "hide cover4x4 [0xA5] = Inr stego4x4_one"
    by (rule hide_cover4x4_one)
  have k: "0 < length (pixelData cover4x4)" "3 < length (pixelData cover4x4)"
    "56 < length (pixelData cover4x4)"
    by (simp_all add: cover4x4_def)
  from embed_touches_only_lsb [OF h k(1)] embed_touches_only_lsb [OF h k(2)]
    embed_touches_only_lsb [OF h k(3)] h
  show ?thesis by simp
qed

text \<open>
  Claim C4. For every well-formed cover image of \<open>W\<close> by \<open>H\<close> pixels with
  \<open>W * H * 3 \<le> 2^53\<close>, \<open>hide\<close> with a payload of exactly \<open>getMaxCapacity\<close> bytes
  succeeds: it returns a pixel buffer of the length of the cover's, in which every bit of
  the length header and of the payload sits in the least significant bit of its R, G or B
  sample, and that buffer is what the canvas holds. For every image, \<open>hide\<close> with any longer
  payload fails with \<open>CapacityError\<close> and leaves the objects it works on as they were: the
  cover image as loaded, and no canvas pixel buffer created or written.
\<close>

theorem capacity_boundary:
  "(wellFormed (loadedImage objs)
      \<and> width (loadedImage objs) * height (loadedImage objs) * 3 \<le> 2 ^ 53
      \<and> int (length secretData) = getMaxCapacity (loadedImage objs) \<longrightarrow>
      (\<exists>out. hide_from secretData objs = (Inr out, objs\<lparr>canvasPixels := Some out\<rparr>)
         \<and> hide (loadedImage objs) secretData = Inr out
         \<and> length out = length (pixelData (loadedImage objs))
         \<and> (\<forall>c < 32 + 8 * length secretData.
               lsbAt out c = unat (dataBit (setUint32_be (length secretData) @ secretData) c))))
   \<and> (getMaxCapacity (loadedImage objs) < int (length secretData) \<longrightarrow>
        hide_from secretData objs = (Inl CapacityError, objs)
        \<and> hide (loadedImage objs) secretData = Inl CapacityError)"
proof (intro conjI impI)
  define img where "img = loadedImage objs"
  define fullData where "fullData = setUint32_be (length secretData) @ secretData"
  define out where "out = fst (hide_loop fullData 0 (pixelData img, 0, 0))"
  assume a: "wellFormed (loadedImage objs)
      \<and> width (loadedImage objs) * height (loadedImage objs) * 3 \<le> 2 ^ 53
      \<and> int (length secretData) = getMaxCapacity (loadedImage objs)"
  then have wf: "wellFormed img" and bound: "width img * height img * 3 \<le> 2 ^ 53"
    and cap: "hasCapacity img (length secretData)"
    by (simp_all add: img_def hasCapacity_iff)
  have len: "8 * length fullData = 32 + 8 * length secretData"
    by (simp add: fullData_def)
  have bits: "8 * length fullData \<le> 3 * (length (pixelData img) div 4)"
    unfolding len using cap wf bound by (rule hasCapacity_bits_exact)
  have 1: "hide_from secretData objs = (Inr out, objs\<lparr>canvasPixels := Some out\<rparr>)"
    using cap by (simp add: hide_from_def Let_def out_def fullData_def img_def)
  have 2: "hide img secretData = Inr out"
    using cap by (simp add: hide_eq out_def fullData_def)
  have 3: "length out = length (pixelData img)"
    by (simp add: out_def hide_loop_length)
  have 4: "lsbAt out c = unat (dataBit fullData c)" if "c < 32 + 8 * length secretData" for c
    unfolding out_def using bits that by (intro hide_stream) (simp_all only: len)
  from 1 2 3 4 show "\<exists>out. hide_from secretData objs = (Inr out, objs\<lparr>canvasPixels := Some out\<rparr>)
         \<and> hide (loadedImage objs) secretData = Inr out
         \<and> length out = length (pixelData (loadedImage objs))
         \<and> (\<forall>c < 32 + 8 * length secretData.
               lsbAt out c = unat (dataBit (setUint32_be (length secretData) @ secretData) c))"
    unfolding img_def fullData_def by blast
next
  assume "getMaxCapacity (loadedImage objs) < int (length secretData)"
  then have n: "\<not> hasCapacity (loadedImage objs) (length secretData)"
    by (simp add: hasCapacity_iff)
  then show "hide_from secretData objs = (Inl CapacityError, objs)"
    by (simp add: hide_from_def Let_def)
  from n show "hide (loadedImage objs) secretData = Inl CapacityError"
    by (simp add: hide_eq)
qed

theorem capacity_boundary_witness:
  "wellFormed cover4x4 \<and> width cover4x4 * height cover4x4 * 3 \<le> 2 ^ 53
   \<and> int (length [0xA5, 0x3C :: byte]) = getMaxCapacity cover4x4
   \<and> hide_from [0xA5, 0x3C] \<lparr>loadedImage = cover4x4, canvasPixels = None\<rparr>
       = (Inr stego4x4, \<lparr>loadedImage = cover4x4, canvasPixels = Some stego4x4\<rparr>)
   \<and> length stego4x4 = length (pixelData cover4x4)
   \<and> (32::nat) < 32 + 8 * length [0xA5, 0x3C :: byte]
   \<and> lsbAt stego4x4 32 = unat (dataBit (setUint32_be 2 @ [0xA5, 0x3C]) 32)
   \<and> lsbAt stego4x4 32 = 1
   \<and> getMaxCapacity cover4x4 < int (length [1, 2, 3 :: byte])
   \<and> hide_from [1, 2, 3] \<lparr>loadedImage = cover4x4, canvasPixels = None\<rparr>
       = (Inl CapacityError, \<lparr>loadedImage = cover4x4, canvasPixels = None\<rparr>)"
proof -
  define objs where "objs = \<lparr>loadedImage = cover4x4, canvasPixels = None\<rparr>"
  have i: "loadedImage objs = cover4x4" by (simp add: objs_def)
  have wf: "wellFormed cover4x4" by (simp add: wellFormed_def cover4x4_def)
  have b: "width cover4x4 * height cover4x4 * 3 \<le> 2 ^ 53" by (simp add: cover4x4_def)
  have c: "getMaxCapacity cover4x4 = 2"
    by (simp add: getMaxCapacity_4x4 cover4x4_def)
  from capacity_boundary [of objs "[0xA5, 0x3C]"] wf b c
  obtain out where 1: "hide_from [0xA5, 0x3C] objs = (Inr out, objs\<lparr>canvasPixels := Some out\<rparr>)"
    and 2: "hide cover4x4 [0xA5, 0x3C] = Inr out"
    and 3: "length out = length (pixelData cover4x4)"
    and 4: "\<forall>c < 32 + 8 * length [0xA5, 0x3C :: byte].
              lsbAt out c = unat (dataBit (setUint32_be (length [0xA5, 0x3C :: byte]) @ [0xA5, 0x3C]) c)"
    unfolding i by auto
  from 2 hide_cover4x4 have o: "out = stego4x4" by simp
  from 4 have 5: "lsbAt stego4x4 32 = unat (dataBit (setUint32_be 2 @ [0xA5, 0x3C]) 32)"
    unfolding o by (simp add: numeral_2_eq_2)
  have 6: "lsbAt stego4x4 32 = 1"
    by (simp add: lsbAt_def sampleBit_def stego4x4_def)
  from capacity_boundary [of objs "[1, 2, 3]"] c
  have 7: "hide_from [1, 2, 3] objs = (Inl CapacityError, objs)"
    unfolding i by simp
  have l2: "int (length [0xA5, 0x3C :: byte]) = getMaxCapacity cover4x4" using c by simp
  have l3: "getMaxCapacity cover4x4 < int (length [1, 2, 3 :: byte])" using c by simp
  have k: "(32::nat) < 32 + 8 * length [0xA5, 0x3C :: byte]" by simp
  have h: "hide_from [0xA5, 0x3C] \<lparr>loadedImage = cover4x4, canvasPixels = None\<rparr>
       = (Inr stego4x4, \<lparr>loadedImage = cover4x4, canvasPixels = Some stego4x4\<rparr>)"
    using 1 unfolding o objs_def by simp
  from wf b l2 h 3 [unfolded o] k 5 6 l3 7 [unfolded objs_def]
  show ?thesis by blast
qed

text \<open>
  Claim C3, as amended. For every well-formed cover image (four samples per pixel) and every
  payload shorter than \<open>2^32\<close> bytes that \<open>hide\<close> accepts, \<open>reveal\<close> on the pixels that
  \<open>hide\<close> produced returns exactly the payload when the payload has at least one byte (in
  particular for one byte and for exactly the capacity), and fails with \<open>CorruptionError\<close>
  when the payload is empty: \<open>reveal\<close> rejects a declared length of zero.
\<close>

theorem stego_round_trip:
  assumes wf: "wellFormed img" and h: "hide img secretData = Inr out"
    and small: "length secretData < 2 ^ 32"
  shows "reveal out = (if secretData = [] then Inl CorruptionError else Inr secretData)"
proof -
  define L where "L = length secretData"
  define fullData where "fullData = setUint32_be L @ secretData"
  define pixels where "pixels = pixelData img"
  define f where "f = lsbAt out"
  define m where "m = length pixels div 4"
  from h have cap: "hasCapacity img L"
    and out: "out = fst (hide_loop fullData 0 (pixels, 0, 0))"
    by (simp_all add: hide_Inr L_def fullData_def pixels_def)
  have len: "length fullData = 4 + L" by (simp add: fullData_def L_def)
  have bits: "32 + 8 * L \<le> 3 * m"
    unfolding m_def pixels_def using cap wf small [folded L_def] by (rule hasCapacity_bits)
  have lo: "length out = length pixels" by (simp add: out hide_loop_length)
  have p4: "length pixels mod 4 = 0" using wf by (simp add: wellFormed_def pixels_def)
  have stream: "f c = unat (dataBit fullData c)" if "c < 8 * length fullData" for c
    unfolding f_def out using bits that by (intro hide_stream) (simp_all add: len m_def)
  have hdr: "bytesUpTo f 0 4 4 = setUint32_be L"
    using stream_bytes [of fullData f 0 4] stream by (simp add: len fullData_def)
  have dat: "bytesUpTo f 32 L L = secretData"
    using stream_bytes [of fullData f 4 L] stream by (simp add: len) (simp add: fullData_def L_def)
  have m32: "min (3 * m) 32 div 8 = 4" using bits by simp
  have mT: "min (3 * m) (32 + 8 * L) = 32 + 8 * L" using bits by simp
  have dl: "getUint32_be (setUint32_be L) = L"
    using small by (simp add: getUint32_setUint32 L_def)
  have ok: "\<not> L * 8 > length pixels * 3" using bits by (simp add: m_def)
  have "reveal out = (if L = 0 then Inl CorruptionError
                      else Inr (fst (revState f L (32 + 8 * L))))"
    using ok by (simp add: reveal_eq lo p4 Let_def f_def [symmetric] m_def [symmetric] m32 hdr dl mT)
  also have "fst (revState f L (32 + 8 * L)) = secretData"
    by (simp add: revState_def dat)
  finally show ?thesis by (simp add: L_def)
qed


theorem stego_round_trip_witness:
  "wellFormed cover4x4 \<and> hide cover4x4 [0xA5, 0x3C] = Inr stego4x4
   \<and> length [0xA5, 0x3C :: byte] < 2 ^ 32
   \<and> int (length [0xA5, 0x3C :: byte]) = getMaxCapacity cover4x4
   \<and> reveal stego4x4 = Inr [0xA5, 0x3C]"
proof -
  have wf: "wellFormed cover4x4" by (simp add: wellFormed_def cover4x4_def)
  have small: "length [0xA5, 0x3C :: byte] < 2 ^ 32" by simp
  have c: "getMaxCapacity cover4x4 = 2"
    by (simp add: getMaxCapacity_4x4 cover4x4_def)
  from stego_round_trip [OF wf hide_cover4x4 small] wf hide_cover4x4 c
  show ?thesis by simp
qed

text \<open>
  The claim as stated fails for the empty payload: \<open>hide\<close> accepts it on a 4 by 4 black
  image (the 32 header bits are all zero, so the pixels stay as they are), and \<open>reveal\<close> on
  the result fails instead of returning the empty payload.
\<close>

theorem stego_round_trip_empty_payload:
  "hide black4x4 [] = Inr (pixelData black4x4)
   \<and> reveal (pixelData black4x4) = Inl CorruptionError
   \<and> reveal (pixelData black4x4) \<noteq> Inr []"
  using hide_black4x4 reveal_black4x4 by simp

text \<open>
  Claim C5 says that \<open>reveal\<close> fails with \<open>CorruptionError\<close> whenever the declared length
  exceeds the capacity of the image. The sanity check of \<open>reveal\<close> compares the declared
  length with \<open>pixels.length * 3 / 8\<close>, where \<open>pixels.length\<close> counts four samples per
  pixel and the 32 header bits are not subtracted. On the 4 by 4 buffer \<open>forged4x4\<close>, whose
  header declares 3 bytes, the capacity is 2 bytes and \<open>reveal\<close> still returns 3 bytes: the
  16 payload bits the image holds, then a byte that was never read.
\<close>

theorem reveal_accepts_length_above_capacity:
  "getMaxCapacity \<lparr>width = 4, height = 4, pixelData = forged4x4\<rparr> = 2
   \<and> length forged4x4 = 4 * (4 * 4)
   \<and> reveal forged4x4 = Inr [255, 255, 0]"
  using reveal_forged4x4 by (simp add: getMaxCapacity_4x4) (simp add: forged4x4_def)

section \<open>Container and key claims\<close>

definition container34 :: "byte list" where
  "container34 =
     [0, 0, 0, 0, 0, 0, 0, 0, 0, 0, 0, 0, 0, 0, 0, 0,
      0, 0, 0, 0, 0, 0, 0, 0, 0, 0, 0, 0,
      0x7B, 0x7D,
      2, 0, 0, 0]"

lemma slice_explicit: "slice xs a b = take (b - a) (drop a xs)"
  by (simp add: slice_def)

lemma parse_container34:
  "parseEncryptedFile container34 =
     Inr \<lparr>pf_salt = [0, 0, 0, 0, 0, 0, 0, 0, 0, 0, 0, 0, 0, 0, 0, 0],
          pf_iv = [0, 0, 0, 0, 0, 0, 0, 0, 0, 0, 0, 0],
          pf_encryptedData = [], pf_metadata = JObject []\<rparr>"
proof -
  have m: "getUint32_le (slice container34 (length container34 - 4) (length container34)) = 2"
    by (simp add: container34_def slice_def getUint32_le_def getUint32_be_def)
  have t: "TextDecoder_decode (slice container34 28 30) = [0x7B, 0x7D]"
    by (simp add: container34_def slice_def TextDecoder_decode_def utf8_lead_def
          utf16_of_codepoint_def Let_def)
  have j: "JSON_parse [0x7B, 0x7D] = Some (JObject [])"
    by (simp add: JSON_parse_def parse_value.simps)
  have l: "length container34 = 34" by (simp add: container34_def)
  have s: "slice container34 0 16 = [0, 0, 0, 0, 0, 0, 0, 0, 0, 0, 0, 0, 0, 0, 0, 0]"
    "slice container34 16 28 = [0, 0, 0, 0, 0, 0, 0, 0, 0, 0, 0, 0]"
    "slice container34 28 28 = []"
    by (simp_all add: container34_def slice_def)
  show ?thesis
    unfolding parseEncryptedFile_def Let_def m
    by (simp add: l t j s)
qed

text \<open>
  Claim C6, as amended. \<open>parseEncryptedFile\<close> fails, and then always with \<open>FormatError\<close>,
  exactly when the input has fewer than 32 bytes (28 bytes of header and the 4-byte
  trailer), or the little-endian metadata length \<open>M\<close> in the last four bytes is zero, or the
  metadata start offset \<open>length - 4 - M\<close> is below 28, or the \<open>M\<close> metadata bytes do not
  decode to a text that \<open>JSON.parse\<close> accepts. In every other case it succeeds and returns
  bytes 0 to 16 as the salt, bytes 16 to 28 as the IV, the bytes from offset 28 to the
  metadata start as the encrypted data, and the parsed metadata.
\<close>

theorem parse_validation:
  fixes data :: "byte list"
  defines "M \<equiv> getUint32_le (slice data (length data - 4) (length data))"
  defines "start \<equiv> int (length data) - 4 - int M"
  defines "parsed \<equiv> JSON_parse (TextDecoder_decode (slice data (nat start) (length data - 4)))"
  shows "(parseEncryptedFile data = Inl FormatError) =
           (length data < 32 \<or> M = 0 \<or> start < 28 \<or> parsed = None)
       \<and> (\<forall>e. parseEncryptedFile data = Inl e \<longrightarrow> e = FormatError)
       \<and> (\<not> (length data < 32 \<or> M = 0 \<or> start < 28 \<or> parsed = None) \<longrightarrow>
            parseEncryptedFile data =
              Inr \<lparr>pf_salt = take 16 data, pf_iv = take 12 (drop 16 data),
                   pf_encryptedData = slice data 28 (nat start),
                   pf_metadata = the parsed\<rparr>)"
proof (cases "length data < 32 \<or> M = 0 \<or> start < 28")
  case True
  then have "length data < 32 \<or> M = 0 \<or> M > length data - 32"
    unfolding start_def by linarith
  then have "parseEncryptedFile data = Inl FormatError"
    unfolding parseEncryptedFile_def Let_def M_def by auto
  with True show ?thesis by auto
next
  case False
  then have a: "\<not> length data < 28 + 4" "\<not> (M \<le> 0 \<or> M > length data - 32)"
    "\<not> length data - 4 - M < 28" and st: "nat start = length data - 4 - M"
    unfolding start_def by linarith+
  have "parseEncryptedFile data =
      (case parsed of
         None \<Rightarrow> Inl FormatError
       | Some metadata' \<Rightarrow>
           Inr \<lparr>pf_salt = slice data 0 16, pf_iv = slice data 16 28,
                pf_encryptedData = slice data 28 (nat start), pf_metadata = metadata'\<rparr>)"
    unfolding parseEncryptedFile_def Let_def parsed_def st
    using a unfolding M_def by simp
  then show ?thesis
    using False by (cases parsed) (simp_all add: slice_def)
qed

theorem parse_validation_witness:
  "\<not> (length container34 < 32
       \<or> getUint32_le (slice container34 (length container34 - 4) (length container34)) = 0
       \<or> int (length container34) - 4
            - int (getUint32_le (slice container34 (length container34 - 4) (length container34))) < 28
       \<or> JSON_parse (TextDecoder_decode (slice container34 28 30)) = None)
   \<and> parseEncryptedFile container34 =
       Inr \<lparr>pf_salt = take 16 container34, pf_iv = take 12 (drop 16 container34),
            pf_encryptedData = [], pf_metadata = JObject []\<rparr>"
proof -
  have l: "length container34 = 34" by (simp add: container34_def)
  have m: "getUint32_le (slice container34 30 34) = 2"
    by (simp add: container34_def slice_def getUint32_le_def getUint32_be_def)
  have t: "TextDecoder_decode (slice container34 28 30) = [0x7B, 0x7D]"
    by (simp add: container34_def slice_def TextDecoder_decode_def utf8_lead_def
          utf16_of_codepoint_def Let_def)
  have j: "JSON_parse [0x7B, 0x7D] = Some (JObject [])"
    by (simp add: JSON_parse_def parse_value.simps)
  have e: "slice container34 28 28 = []" by (simp add: slice_def)
  from parse_validation [of container34] show ?thesis
    by (simp add: l m t j e)
qed

text \<open>
  The claim as stated puts the minimum container length at \<open>32 + 4 = 36\<close> bytes. The code
  tests \<open>data.length < 28 + 4\<close>: the 34-byte input \<open>container34\<close> (28 zero bytes, the
  metadata text \<open>{}\<close>, and the length 2) is parsed successfully.
\<close>

theorem parse_accepts_34_bytes:
  "length container34 < 32 + 4
   \<and> parseEncryptedFile container34 =
       Inr \<lparr>pf_salt = [0, 0, 0, 0, 0, 0, 0, 0, 0, 0, 0, 0, 0, 0, 0, 0],
            pf_iv = [0, 0, 0, 0, 0, 0, 0, 0, 0, 0, 0, 0],
            pf_encryptedData = [], pf_metadata = JObject []\<rparr>
   \<and> parseEncryptedFile container34 \<noteq> Inl FormatError"
  using parse_container34 by (simp add: container34_def)

text \<open>
  Claim C9, as amended. \<open>deriveKey\<close> makes no test on the password: for every password, the
  empty string included, it returns the PBKDF2 key (HMAC-SHA-256, 100000 iterations) of the
  UTF-8 bytes of the password and the salt. The empty password is turned away before
  \<open>deriveKey\<close> is reached: \<open>Encryptor.prepareKey\<close> treats it as no password and returns a
  random key together with its exported bytes.
\<close>

theorem deriveKey_any_password:
  "deriveKey pbkdf2 password salt = Inr (pbkdf2 (TextEncoder_encode password) salt 100000)
   \<and> deriveKey pbkdf2 [] salt = Inr (pbkdf2 [] salt 100000)
   \<and> Encryptor_prepareKey pbkdf2 randomKey exportKey (Some []) salt
       = Inr (randomKey, Some (exportKey randomKey))"
  by (simp add: deriveKey_def Encryptor_prepareKey_def TextEncoder_encode_def)

text \<open>
  The claim as stated fails: with the empty password and a 16-byte salt \<open>deriveKey\<close> returns
  a key, whatever PBKDF2 computes (here the stand-in that returns its arguments).
\<close>

theorem deriveKey_empty_password_succeeds:
  "deriveKey (\<lambda>password salt iterations. (password, salt, iterations)) []
       [0, 1, 2, 3, 4, 5, 6, 7, 8, 9, 10, 11, 12, 13, 14, 15 :: byte]
     = Inr ([], [0, 1, 2, 3, 4, 5, 6, 7, 8, 9, 10, 11, 12, 13, 14, 15], 100000)
   \<and> deriveKey (\<lambda>password salt iterations. (password, salt, iterations)) []
       [0, 1, 2, 3, 4, 5, 6, 7, 8, 9, 10, 11, 12, 13, 14, 15 :: byte]
     \<noteq> Inl KeyDerivationError"
  by (simp add: deriveKey_def TextEncoder_encode_def)

text \<open>
  Claim C2 says that two chunks with distinct indices are sealed under distinct nonces. The
  encryption loop passes the one \<open>iv\<close> generated before the loop to every \<open>encryptChunk\<close>
  call: for every file, the chunks carry the indices \<open>0 .. totalChunks - 1\<close> and each of them
  is sealed under \<open>iv\<close>. A file of 10 MiB and one byte has two chunks, both sealed under the
  same key and the same nonce.
\<close>

theorem nonce_reused_for_every_chunk:
  "map sealed_index (encryptFileChunks aesGcm cryptoKey iv file) = [0 ..< totalChunks file]
   \<and> map sealed_iv (encryptFileChunks aesGcm cryptoKey iv file) = replicate (totalChunks file) iv
   \<and> totalChunks (replicate (CHUNK_SIZE + 1) 0) = 2"
proof -
  have idx: "map chunk_index (readChunks file) = [0 ..< totalChunks file]"
    by (simp add: readChunks_def readChunks_from_index totalChunks_def)
  have "map sealed_index (encryptFileChunks aesGcm cryptoKey iv file) = map chunk_index (readChunks file)"
    by (simp add: encryptFileChunks_def comp_def)
  then have 1: "map sealed_index (encryptFileChunks aesGcm cryptoKey iv file) = [0 ..< totalChunks file]"
    by (simp only: idx)
  have "length (readChunks file) = totalChunks file"
    using arg_cong [OF idx, of length] by simp
  then have 2: "map sealed_iv (encryptFileChunks aesGcm cryptoKey iv file) = replicate (totalChunks file) iv"
    by (simp add: encryptFileChunks_def comp_def map_replicate_const)
  have 3: "totalChunks (replicate (CHUNK_SIZE + 1) 0) = 2"
    by (simp add: totalChunks_def CHUNK_SIZE_def)
  from 1 2 3 show ?thesis by simp
qed

end
